theory Spec2Isabelle
  imports Main "HOL-Library.Word" "HOL-Library.AList"
begin

section \<open>abfs: an Azure blob container served as a file tree\<close>

text \<open>
  The development embeds \<^verbatim>\<open>fs.go\<close> and \<^verbatim>\<open>blob.go\<close> of abfs. The sources hold two
  revisions of \<^verbatim>\<open>fs.go\<close>: \<^verbatim>\<open>src/fs.go\<close>, which pages directory listings through the
  package-level \<^verbatim>\<open>ReaddirOffset\<close>, and the one inside \<^verbatim>\<open>src/unnamed/part_000\<close> (beside
  \<^verbatim>\<open>blob.go\<close>), which pages through a channel per directory that a goroutine feeds.
  \<^verbatim>\<open>Sync\<close>, \<^verbatim>\<open>Search\<close>, \<^verbatim>\<open>Insert\<close>, \<^verbatim>\<open>NewChild\<close>, \<^verbatim>\<open>WriteAt\<close>, \<^verbatim>\<open>ReadAt\<close>, \<^verbatim>\<open>IsDir\<close> and
  \<^verbatim>\<open>Stat\<close> are the same text in both. \<^verbatim>\<open>Size\<close> differs and is embedded once per revision
  (\<open>Size_fs\<close> for \<^verbatim>\<open>src/fs.go\<close>, \<open>Size_part000\<close> for \<^verbatim>\<open>src/unnamed/part_000\<close>), and so is
  \<^verbatim>\<open>ReadAt\<close>, which calls it. \<^verbatim>\<open>Readdir\<close> is embedded from \<^verbatim>\<open>src/fs.go\<close>; the one of
  \<^verbatim>\<open>src/unnamed/part_000\<close> is concurrent code and has no place in this sequential model.
\<close>

subsection \<open>Errors and panics\<close>

text \<open>
  Go errors are values built from strings; the model keeps one constructor per
  \<^verbatim>\<open>errors.New\<close> site, \<^verbatim>\<open>io.EOF\<close>, the error of a failed upload, and the run-time
  panics the code can reach.
\<close>

datatype error =
    ErrListBlobs                \<comment> \<open>\<^verbatim>\<open>could not list blobs from container - ...\<close>\<close>
  | ErrNotFound                 \<comment> \<open>\<^verbatim>\<open>could not find file\<close>\<close>
  | ErrNoParent error           \<comment> \<open>\<^verbatim>\<open>could not find parent directory: ...\<close>\<close>
  | ErrExists                   \<comment> \<open>\<^verbatim>\<open>file "..." exists\<close>\<close>
  | ErrInsertRemote error       \<comment> \<open>\<^verbatim>\<open>could not insert remote blobs into fs - ...\<close>\<close>
  | ErrUpload                   \<comment> \<open>the error of \<^verbatim>\<open>azblob.UploadStreamToBlockBlob\<close>\<close>
  | EOF                         \<comment> \<open>\<^verbatim>\<open>io.EOF\<close>\<close>
  | PanicTruncate               \<comment> \<open>\<^verbatim>\<open>bytes.Buffer: truncation out of range\<close>\<close>
  | PanicNilDeref               \<comment> \<open>nil pointer dereference\<close>
  | PanicSliceBounds            \<comment> \<open>slice bounds out of range\<close>

type_synonym byte = "8 word"

subsection \<open>Paths: \<^verbatim>\<open>strings.Split\<close>, \<^verbatim>\<open>path.Clean\<close>, \<^verbatim>\<open>path.Split\<close>\<close>

text \<open>
  \<^verbatim>\<open>strings.Split(s, "/")\<close>: the substrings between the separators; a string with no
  separator (the empty one too) gives one element.
\<close>

fun strings_Split :: "char \<Rightarrow> string \<Rightarrow> string list" where
  "strings_Split c [] = [[]]"
| "strings_Split c (x # xs) =
     (if x = c then [] # strings_Split c xs
      else (x # hd (strings_Split c xs)) # tl (strings_Split c xs))"

fun join_slash :: "string list \<Rightarrow> string" where
  "join_slash [] = []"
| "join_slash [x] = x"
| "join_slash (x # y # ys) = x @ CHR ''/'' # join_slash (y # ys)"

text \<open>
  \<^verbatim>\<open>path.Clean\<close> of the Go library, element by element. The stack holds the elements
  written so far, last one first. An empty element (a doubled slash) and \<^verbatim>\<open>.\<close> are
  dropped; \<^verbatim>\<open>..\<close> removes the element before it when there is one that is not itself a
  kept \<^verbatim>\<open>..\<close>, is dropped at the root of a rooted path, and is kept at the start of a
  relative path.
\<close>

definition Clean_step :: "bool \<Rightarrow> string \<Rightarrow> string list \<Rightarrow> string list" where
  "Clean_step rooted seg out =
     (if seg = [] \<or> seg = ''.'' then out
      else if seg = ''..'' then
        (case out of
           [] \<Rightarrow> if rooted then [] else [''..'']
         | lastseg # rest \<Rightarrow> if lastseg = ''..'' then ''..'' # out else rest)
      else seg # out)"

definition Clean :: "string \<Rightarrow> string" where
  "Clean path =
     (if path = [] then ''.''
      else
        let rooted = (hd path = CHR ''/'');
            out = rev (fold (Clean_step rooted) (strings_Split CHR ''/'' path) [])
        in if rooted then CHR ''/'' # join_slash out
           else if out = [] then ''.'' else join_slash out)"

text \<open>
  \<^verbatim>\<open>path.Split\<close>: the path up to and including its last slash, and what follows it; a
  path with no slash has the empty directory part.
\<close>

definition path_Split :: "string \<Rightarrow> string \<times> string" where
  "path_Split full =
     (let file = rev (takeWhile (\<lambda>c. c \<noteq> CHR ''/'') (rev full))
      in (take (length full - length file) full, file))"

subsection \<open>The file tree\<close>

text \<open>
  \<^verbatim>\<open>type File struct\<close>. A \<^verbatim>\<open>*Blob\<close> is an address into the blob store of the state,
  \<open>None\<close> being nil. The children a directory owns are values of the tree; a
  \<^verbatim>\<open>*File\<close> is the position of the node, the list of child indices leading to it from
  the root (\<open>[]\<close> is the root itself). The fields \<^verbatim>\<open>parent\<close>, \<^verbatim>\<open>srv\<close> and \<^verbatim>\<open>last\<close> are
  read by none of the functions below and are left out.
\<close>

datatype File = File (name: string) (dir: bool) (Blob: "nat option") (Children: "File list")

type_synonym fileptr = "nat list"

fun get :: "File \<Rightarrow> fileptr \<Rightarrow> File option" where
  "get f [] = Some f"
| "get f (i # p) = (if i < length (Children f) then get (Children f ! i) p else None)"

fun upd :: "(File \<Rightarrow> File) \<Rightarrow> File \<Rightarrow> fileptr \<Rightarrow> File" where
  "upd g f [] = g f"
| "upd g f (i # p) =
     File (name f) (dir f) (Blob f) ((Children f)[i := upd g (Children f ! i) p])"

definition append_child :: "File \<Rightarrow> File \<Rightarrow> File" where
  "append_child child f = File (name f) (dir f) (Blob f) (Children f @ [child])"

text \<open>The index of the first element that satisfies \<open>P\<close>: a \<^verbatim>\<open>range\<close> loop that stops at its first hit.\<close>

fun first_index :: "('a \<Rightarrow> bool) \<Rightarrow> 'a list \<Rightarrow> nat option" where
  "first_index P [] = None"
| "first_index P (x # xs) =
     (if P x then Some 0 else map_option Suc (first_index P xs))"

text \<open>
  \<^verbatim>\<open>File.Search\<close>. The inner loop ranges over \<^verbatim>\<open>t.Children\<close>, the children of the
  receiver, for every path element; \<^verbatim>\<open>found\<close> is the child matched last.
\<close>

fun Search_loop :: "File list \<Rightarrow> string list \<Rightarrow> fileptr \<Rightarrow> error + fileptr" where
  "Search_loop cs [] found = Inr found"
| "Search_loop cs (current # files) found =
     (case first_index (\<lambda>child. name child = current) cs of
        Some i \<Rightarrow> Search_loop cs files [i]
      | None \<Rightarrow> Inl ErrNotFound)"

definition Search :: "File \<Rightarrow> string \<Rightarrow> error + fileptr" where
  "Search t full =
     (let cleaned = Clean full;
          files = tl (strings_Split CHR ''/'' cleaned)
      in Search_loop (Children t) files [])"

subsection \<open>Blobs, buffers and the state of the server\<close>

text \<open>
  \<^verbatim>\<open>bytes.Buffer\<close>: the slice \<^verbatim>\<open>buf\<close> is the address of its backing array in the store
  of byte arrays (\<open>None\<close> is the nil slice) and its length; its capacity is the length
  of the backing array. The read offset \<^verbatim>\<open>off\<close> of the buffer stays 0, since nothing
  reads from \<^verbatim>\<open>body\<close> through the buffer's \<^verbatim>\<open>Read\<close> methods, and is left out. A slice
  of bytes handed around (\<^verbatim>\<open>[]byte\<close>) is the same pair.
\<close>

record Buffer =
  bufp :: "nat option"
  buflen :: nat

text \<open>\<^verbatim>\<open>type Blob struct\<close>: the name the URL is built from, and the body.\<close>

record Blob =
  bname :: string
  body :: Buffer

text \<open>
  The state: the tree under \<^verbatim>\<open>srv.File\<close>, the store of blobs and the store of byte
  arrays with their allocation counters, the remote container (objects by name, and
  whether a list, upload or download request fails), the package variable
  \<^verbatim>\<open>ReaddirOffset\<close> (never negative: it starts at 0 and is only assigned a loop index
  counted up from itself) and the number of values sent on \<^verbatim>\<open>reset\<close>.
\<close>

record state =
  root :: File
  blobs :: "nat \<Rightarrow> Blob"
  nblobs :: nat
  arrays :: "nat \<Rightarrow> byte list"
  narrays :: nat
  objects :: "(string \<times> byte list) list"
  list_fails :: bool
  upload_fails :: bool
  download_fails :: bool
  ReaddirOffset :: nat
  reset_sent :: nat

text \<open>\<^verbatim>\<open>NewTree\<close>: a stub root directory; its \<^verbatim>\<open>Blob\<close> is nil.\<close>

definition NewTree :: File where
  "NewTree = File ''/'' True None []"

text \<open>\<^verbatim>\<open>ListBlobs\<close>: the names of the container, or the error of the listing.\<close>

definition ListBlobs :: "state \<Rightarrow> error + string list" where
  "ListBlobs s = (if list_fails s then Inl ErrListBlobs else Inr (map fst (objects s)))"

text \<open>
  Modelled from the spec: \<^verbatim>\<open>missingLocally\<close> is called by \<^verbatim>\<open>Sync\<close> and defined in a file
  that is not among the sources. The specification gives it as
  \<^verbatim>\<open>missing = remoteNames - localNames\<close>: the remote names that are not local names,
  kept here in the order of the remote listing.
\<close>

definition missingLocally :: "string list \<Rightarrow> string list \<Rightarrow> string list" where
  "missingLocally locals remotes = filter (\<lambda>n. n \<notin> set locals) remotes"

text \<open>\<^verbatim>\<open>NewBlob\<close>: a fresh blob with the zero \<^verbatim>\<open>bytes.Buffer\<close>; the result is its address.\<close>

definition NewBlob :: "state \<Rightarrow> string \<Rightarrow> state \<times> nat" where
  "NewBlob s nm =
     (s\<lparr>blobs := (blobs s)(nblobs s := \<lparr>bname = nm, body = \<lparr>bufp = None, buflen = 0\<rparr>\<rparr>),
        nblobs := Suc (nblobs s)\<rparr>,
      nblobs s)"

text \<open>
  \<^verbatim>\<open>File.NewChild\<close> on the node \<open>tf\<close> found at \<open>t\<close>: the child gets a blob whatever \<^verbatim>\<open>isDir\<close>
  is, and is appended to the children of the node. The result is the pointer to the
  child, the last child of the node.
\<close>

definition NewChild :: "state \<Rightarrow> fileptr \<Rightarrow> File \<Rightarrow> string \<Rightarrow> bool \<Rightarrow> state \<times> fileptr" where
  "NewChild s t tf nm isDir =
     (let (s1, b) = NewBlob s nm;
          child = File nm isDir (Some b) []
      in (s1\<lparr>root := upd (append_child child) (root s1) t\<rparr>, t @ [length (Children tf)]))"

text \<open>
  \<^verbatim>\<open>File.Insert\<close> on the root (\<^verbatim>\<open>srv.Insert\<close> is this method, promoted through the
  \<^verbatim>\<open>File\<close> embedded in \<^verbatim>\<open>Server\<close>). On an error the Go code returns the root beside the
  error; the model returns the error alone.
\<close>

definition Insert :: "state \<Rightarrow> string \<Rightarrow> bool \<Rightarrow> state \<times> (error + fileptr)" where
  "Insert s full isDir =
     (let (parentName, nm) = path_Split full in
      case (if parentName = ''/'' then Inr [] else Search (root s) parentName) of
        Inl e \<Rightarrow> (s, Inl (ErrNoParent e))
      | Inr parent \<Rightarrow>
          (case get (root s) parent of
             None \<Rightarrow> (s, Inl PanicNilDeref)
           | Some pf \<Rightarrow>
               if nm \<in> set (map name (Children pf)) then (s, Inl ErrExists)
               else (case NewChild s parent pf nm isDir of (s', f) \<Rightarrow> (s', Inr f))))"

text \<open>\<^verbatim>\<open>File.Sync\<close> on the root: the loop over \<^verbatim>\<open>diff\<close> stops at the first failed insert.\<close>

fun Sync_loop :: "state \<Rightarrow> string list \<Rightarrow> state \<times> error option" where
  "Sync_loop s [] = (s, None)"
| "Sync_loop s (nm # diff) =
     (case Insert s (CHR ''/'' # nm) False of
        (s', Inl e) \<Rightarrow> (s', Some (ErrInsertRemote e))
      | (s', Inr f) \<Rightarrow> Sync_loop s' diff)"

definition Sync :: "state \<Rightarrow> state \<times> error option" where
  "Sync s =
     (case ListBlobs s of
        Inl e \<Rightarrow> (s, Some e)
      | Inr remotes \<Rightarrow>
          let locals = map name (Children (root s));
              diff = missingLocally locals remotes
          in Sync_loop s diff)"

subsection \<open>\<^verbatim>\<open>bytes.Buffer\<close> on the store of byte arrays\<close>

text \<open>The bytes a slice shows: the first \<open>buflen\<close> bytes of its backing array, as it is now.\<close>

definition slice_bytes :: "state \<Rightarrow> Buffer \<Rightarrow> byte list" where
  "slice_bytes s b = (case bufp b of None \<Rightarrow> [] | Some a \<Rightarrow> take (buflen b) (arrays s a))"

definition slice_cap :: "state \<Rightarrow> Buffer \<Rightarrow> nat" where
  "slice_cap s b = (case bufp b of None \<Rightarrow> 0 | Some a \<Rightarrow> length (arrays s a))"

definition set_body :: "state \<Rightarrow> nat \<Rightarrow> Buffer \<Rightarrow> state" where
  "set_body s r b = s\<lparr>blobs := (blobs s)(r := (blobs s r)\<lparr>body := b\<rparr>)\<rparr>"

text \<open>
  \<^verbatim>\<open>Blob.Contents\<close>, that is \<^verbatim>\<open>body.Bytes()\<close>: no copy is made, the slice returned
  shares the backing array of the buffer.
\<close>

definition Contents :: "state \<Rightarrow> nat \<Rightarrow> Buffer" where
  "Contents s r = body (blobs s r)"

text \<open>\<^verbatim>\<open>Buffer.Reset\<close>: \<^verbatim>\<open>b.buf = b.buf[:0]\<close>.\<close>

definition Buffer_Reset :: "state \<Rightarrow> nat \<Rightarrow> state" where
  "Buffer_Reset s r = set_body s r ((body (blobs s r))\<lparr>buflen := 0\<rparr>)"

text \<open>
  \<^verbatim>\<open>Buffer.Truncate(n)\<close>: \<^verbatim>\<open>Reset\<close> when \<open>n = 0\<close>, a panic when \<open>n\<close> is negative or
  beyond the length, \<^verbatim>\<open>b.buf = b.buf[:n]\<close> otherwise.
\<close>

definition Buffer_Truncate :: "state \<Rightarrow> nat \<Rightarrow> int \<Rightarrow> error + state" where
  "Buffer_Truncate s r n =
     (if n = 0 then Inr (Buffer_Reset s r)
      else if n < 0 \<or> n > int (buflen (body (blobs s r))) then Inl PanicTruncate
      else Inr (set_body s r ((body (blobs s r))\<lparr>buflen := nat n\<rparr>)))"

text \<open>
  \<^verbatim>\<open>Buffer.Write(p)\<close> (Go 1.15, the release current when abfs was written). When the
  bytes fit the capacity left (\<^verbatim>\<open>tryGrowByReslice\<close>) they are copied into the backing
  array in place. Otherwise \<^verbatim>\<open>grow\<close> allocates: an array of \<^verbatim>\<open>smallBufferSize\<close> = 64
  for a nil buffer and a short write, an array of twice the capacity plus the length
  written otherwise, to which the old content is copied. A new array is zeroed. The
  old array is left as it was. The limit \<^verbatim>\<open>ErrTooLarge\<close> on the size of an array is not
  modelled. The result is the number of bytes written; the error is always nil.
\<close>

definition Buffer_Write :: "state \<Rightarrow> nat \<Rightarrow> byte list \<Rightarrow> state \<times> nat" where
  "Buffer_Write s r p =
     (let b = body (blobs s r); l = buflen b; n = length p; c = slice_cap s b in
      if n \<le> c - l then
        (case bufp b of
           None \<Rightarrow> (s, n)
         | Some a \<Rightarrow>
             (set_body
                (s\<lparr>arrays := (arrays s)(a := take l (arrays s a) @ p @ drop (l + n) (arrays s a))\<rparr>)
                r (b\<lparr>buflen := l + n\<rparr>),
              n))
      else if bufp b = None \<and> n \<le> 64 then
        (set_body
           (s\<lparr>arrays := (arrays s)(narrays s := p @ replicate (64 - n) 0),
              narrays := Suc (narrays s)\<rparr>)
           r \<lparr>bufp = Some (narrays s), buflen = n\<rparr>,
         n)
      else
        (set_body
           (s\<lparr>arrays := (arrays s)(narrays s := slice_bytes s b @ p @ replicate (2 * c - l) 0),
              narrays := Suc (narrays s)\<rparr>)
           r \<lparr>bufp = Some (narrays s), buflen = l + n\<rparr>,
         n))"

subsection \<open>\<^verbatim>\<open>Blob.Upload\<close> and \<^verbatim>\<open>Blob.Download\<close>\<close>

text \<open>\<^verbatim>\<open>Blob.Upload\<close>: the whole body is stored under the name of the blob, or the request fails.\<close>

definition Upload :: "state \<Rightarrow> nat \<Rightarrow> state \<times> error option" where
  "Upload s r =
     (if upload_fails s then (s, Some ErrUpload)
      else (s\<lparr>objects := AList.update (bname (blobs s r)) (slice_bytes s (body (blobs s r)))
                           (objects s)\<rparr>,
            None))"

text \<open>
  \<^verbatim>\<open>Blob.Download\<close>. The error of \<^verbatim>\<open>url.Download\<close> is overwritten unread; after a failed
  request \<^verbatim>\<open>resp\<close> is nil and \<^verbatim>\<open>resp.Body\<close> dereferences it. Otherwise the body is
  reset and \<^verbatim>\<open>ReadFrom\<close> appends the object to it. \<^verbatim>\<open>ReadFrom\<close> grows the buffer in
  steps that depend on how the network delivers the stream; the model grows it as one
  \<^verbatim>\<open>Write\<close> of the whole object does, which gives the same content. The capacity is
  not the code's: \<^verbatim>\<open>ReadFrom\<close> asks for \<^verbatim>\<open>bytes.MinRead\<close> = 512 spare bytes before every
  read, so the code leaves a capacity of at least 512 where the model leaves 64 for a
  short object. No statement below rests on the capacity a download leaves.
\<close>

definition Download :: "state \<Rightarrow> nat \<Rightarrow> state \<times> error option" where
  "Download s r =
     (case (if download_fails s then None else map_of (objects s) (bname (blobs s r))) of
        None \<Rightarrow> (s, Some PanicNilDeref)
      | Some d \<Rightarrow> (fst (Buffer_Write (Buffer_Reset s r) r d), None))"

subsection \<open>\<^verbatim>\<open>WriteAt\<close>, \<^verbatim>\<open>ReadAt\<close>, \<^verbatim>\<open>IsDir\<close>, \<^verbatim>\<open>Size\<close>, \<^verbatim>\<open>Stat\<close>\<close>

text \<open>
  The result of \<^verbatim>\<open>WriteAt\<close>: \<^verbatim>\<open>n\<close> and \<^verbatim>\<open>err\<close>; a panic is reported in \<^verbatim>\<open>err\<close>. The result
  of \<^verbatim>\<open>Sync\<close> is dropped by every caller: \<^verbatim>\<open>f.srv.File.Sync()\<close> is an expression
  statement.
\<close>

definition WriteAt_upload :: "state \<Rightarrow> nat \<Rightarrow> Buffer \<Rightarrow> nat \<Rightarrow> state \<times> nat \<times> error option" where
  "WriteAt_upload s r buf n =
     (case Upload s r of
        (s', Some e) \<Rightarrow>
          (fst (Buffer_Write (Buffer_Reset s' r) r (slice_bytes (Buffer_Reset s' r) buf)),
           0, Some e)
      | (s', None) \<Rightarrow> (s', n, None))"

definition WriteAt :: "state \<Rightarrow> fileptr \<Rightarrow> byte list \<Rightarrow> int \<Rightarrow> state \<times> nat \<times> error option" where
  "WriteAt s f p off =
     (let s1 = fst (Sync s) in
      case Option.bind (get (root s1) f) Blob of
        None \<Rightarrow> (s1, 0, Some PanicNilDeref)
      | Some r \<Rightarrow>
          let buf = Contents s1 r in
          if off > int (buflen buf) then (s1, 0, Some EOF)
          else
            (case (if off < int (buflen buf) then Buffer_Truncate s1 r off else Inr s1) of
               Inl e \<Rightarrow> (s1, 0, Some e)
             | Inr s2 \<Rightarrow>
                 (case Buffer_Write s2 r p of (s3, n) \<Rightarrow> WriteAt_upload s3 r buf n)))"

text \<open>\<^verbatim>\<open>File.IsDir\<close> and \<^verbatim>\<open>File.Stat\<close>, on a copy of the \<^verbatim>\<open>File\<close> (value receivers).\<close>

definition IsDir :: "state \<Rightarrow> File \<Rightarrow> state \<times> bool" where
  "IsDir s f = (fst (Sync s), dir f)"

definition Stat :: "state \<Rightarrow> File \<Rightarrow> state \<times> File" where
  "Stat s f = (fst (Sync s), f)"

text \<open>
  \<^verbatim>\<open>File.Size\<close>, on a copy of the \<^verbatim>\<open>File\<close> made when the method is called: the
  children counted are those of the copy. \<^verbatim>\<open>src/fs.go\<close> gives a directory the size 0,
  \<^verbatim>\<open>src/unnamed/part_000\<close> the number of its children.
\<close>

definition Size_file :: "state \<Rightarrow> File \<Rightarrow> error + int" where
  "Size_file s f =
     (case Blob f of
        None \<Rightarrow> Inl PanicNilDeref
      | Some r \<Rightarrow> Inr (int (buflen (Contents s r))))"

definition Size_fs :: "state \<Rightarrow> File \<Rightarrow> state \<times> (error + int)" where
  "Size_fs s f =
     (case IsDir (fst (Sync s)) f of
        (s', True) \<Rightarrow> (s', Inr 0)
      | (s', False) \<Rightarrow> (s', Size_file s' f))"

definition Size_part000 :: "state \<Rightarrow> File \<Rightarrow> state \<times> (error + int)" where
  "Size_part000 s f =
     (case IsDir (fst (Sync s)) f of
        (s', True) \<Rightarrow> (s', Inr (int (length (Children f))))
      | (s', False) \<Rightarrow> (s', Size_file s' f))"

text \<open>
  \<^verbatim>\<open>File.ReadAt\<close>, with the revision's \<^verbatim>\<open>Size\<close> as a parameter. \<open>plen\<close> is the length of
  the caller's slice \<^verbatim>\<open>p\<close>; the result is \<^verbatim>\<open>n\<close>, the bytes copied into \<^verbatim>\<open>p[:n]\<close>, and
  \<^verbatim>\<open>err\<close>. The error \<^verbatim>\<open>Download\<close> returns is dropped; its panic is not.
\<close>

definition ReadAt_copy ::
  "state \<Rightarrow> nat \<Rightarrow> nat \<Rightarrow> int \<Rightarrow> state \<times> nat \<times> byte list \<times> error option" where
  "ReadAt_copy s r plen offset =
     (let buf = Contents s r in
      if offset < 0 \<or> offset > int (buflen buf) then (s, 0, [], Some PanicSliceBounds)
      else
        let src = drop (nat offset) (slice_bytes s buf)
        in (s, min plen (length src), take plen src, None))"

definition ReadAt_with ::
  "(state \<Rightarrow> File \<Rightarrow> state \<times> (error + int)) \<Rightarrow>
   state \<Rightarrow> fileptr \<Rightarrow> nat \<Rightarrow> int \<Rightarrow> state \<times> nat \<times> byte list \<times> error option" where
  "ReadAt_with Size s f plen offset =
     (let s1 = fst (Sync s) in
      case get (root s1) f of
        None \<Rightarrow> (s1, 0, [], Some PanicNilDeref)
      | Some f1 \<Rightarrow>
          (case Blob f1 of
             None \<Rightarrow> (s1, 0, [], Some PanicNilDeref)
           | Some r \<Rightarrow>
               (case Download s1 r of
                  (s2, Some e) \<Rightarrow> (s2, 0, [], Some e)
                | (s2, None) \<Rightarrow>
                    (case Size s2 f1 of
                       (s3, Inl e) \<Rightarrow> (s3, 0, [], Some e)
                     | (s3, Inr sz) \<Rightarrow>
                         if offset \<ge> sz then (s3, 0, [], Some EOF)
                         else ReadAt_copy s3 r plen offset))))"

definition ReadAt_fs ::
  "state \<Rightarrow> fileptr \<Rightarrow> nat \<Rightarrow> int \<Rightarrow> state \<times> nat \<times> byte list \<times> error option" where
  "ReadAt_fs = ReadAt_with Size_fs"

definition ReadAt_part000 ::
  "state \<Rightarrow> fileptr \<Rightarrow> nat \<Rightarrow> int \<Rightarrow> state \<times> nat \<times> byte list \<times> error option" where
  "ReadAt_part000 = ReadAt_with Size_part000"

subsection \<open>\<^verbatim>\<open>Readdir\<close> of \<^verbatim>\<open>src/fs.go\<close>\<close>

text \<open>
  The loop \<^verbatim>\<open>for i = ReaddirOffset; i < n && i < len(f.Children); i++\<close>, which appends
  \<^verbatim>\<open>f.Children[i]\<close>: the result is the last \<open>i\<close> and the entries collected.
\<close>

function Readdir_loop :: "File list \<Rightarrow> nat \<Rightarrow> nat \<Rightarrow> File list \<Rightarrow> nat \<times> File list" where
  "Readdir_loop cs n i info =
     (if i < n \<and> i < length cs then Readdir_loop cs n (Suc i) (info @ [cs ! i])
      else (i, info))"
  by pat_completeness auto
termination
  by (relation "measure (\<lambda>(cs, n, i, info). length cs - i)") auto

declare Readdir_loop.simps [simp del]

text \<open>
  \<^verbatim>\<open>File.Readdir\<close> of \<^verbatim>\<open>src/fs.go\<close> on the directory at \<open>f\<close>. The position of a listing is
  the package variable \<^verbatim>\<open>ReaddirOffset\<close>. When the offset has reached the number of
  children the call sends on \<^verbatim>\<open>reset\<close> as it returns (the receiver of that channel is
  in a file that is not among the sources; the send is counted and the offset left as
  it is). The allocation \<^verbatim>\<open>make([]os.FileInfo, 0, n)\<close> before the loop, which panics for
  an \<open>n\<close> beyond what the run time can allocate, is not modelled.
\<close>

definition Readdir_fs :: "state \<Rightarrow> fileptr \<Rightarrow> int \<Rightarrow> state \<times> File list \<times> error option" where
  "Readdir_fs s f n =
     (let s1 = fst (Sync s) in
      case get (root s1) f of
        None \<Rightarrow> (s1, [], Some PanicNilDeref)
      | Some d \<Rightarrow>
          if length (Children d) = 0 then (s1, [], Some EOF)
          else if ReaddirOffset s1 \<ge> length (Children d) then
            (s1\<lparr>reset_sent := Suc (reset_sent s1)\<rparr>, [], Some EOF)
          else
            (case Readdir_loop (Children d)
                    (if n \<le> 0 then length (Children d) else nat n) (ReaddirOffset s1) [] of
               (i, info) \<Rightarrow>
                 (s1\<lparr>ReaddirOffset := i\<rparr>, info,
                  if i \<ge> length (Children d) then Some EOF else None)))"

text \<open>The results of \<open>k\<close> page calls in a row on the same directory with the same \<open>n\<close>.\<close>

fun Readdir_fs_calls ::
  "nat \<Rightarrow> state \<Rightarrow> fileptr \<Rightarrow> int \<Rightarrow> (File list \<times> error option) list" where
  "Readdir_fs_calls 0 s f n = []"
| "Readdir_fs_calls (Suc k) s f n =
     snd (Readdir_fs s f n) # Readdir_fs_calls k (fst (Readdir_fs s f n)) f n"

subsection \<open>The search of the specification\<close>

text \<open>
  The specification's \<^verbatim>\<open>search\<close>, written from its words for comparison with
  \<^verbatim>\<open>File.Search\<close>: the cleaned path is split into its segments, the walk starts at the
  root and matches each segment against the children of the node reached so far, and
  the root path has no segment.
\<close>

fun spec_walk :: "File \<Rightarrow> string list \<Rightarrow> error + fileptr" where
  "spec_walk cur [] = Inr []"
| "spec_walk cur (seg # segs) =
     (case first_index (\<lambda>child. name child = seg) (Children cur) of
        None \<Rightarrow> Inl ErrNotFound
      | Some i \<Rightarrow>
          (case spec_walk (Children cur ! i) segs of
             Inl e \<Rightarrow> Inl e
           | Inr p \<Rightarrow> Inr (i # p)))"

definition spec_search :: "File \<Rightarrow> string \<Rightarrow> error + fileptr" where
  "spec_search t full =
     spec_walk t (filter (\<lambda>seg. seg \<noteq> []) (strings_Split CHR ''/'' (Clean full)))"

subsection \<open>Predicates of the statements\<close>

text \<open>A name that \<^verbatim>\<open>path.Clean\<close> keeps as one path element: no slash, neither \<^verbatim>\<open>.\<close> nor \<^verbatim>\<open>..\<close>.\<close>

definition flat_name :: "string \<Rightarrow> bool" where
  "flat_name n = (CHR ''/'' \<notin> set n \<and> n \<noteq> ''.'' \<and> n \<noteq> ''..'')"

text \<open>
  The entries reconciliation makes for the names \<open>ns\<close> when \<open>k\<close> is the next free blob
  address: regular entries without children, each with a blob of its own.
\<close>

fun new_entries :: "string list \<Rightarrow> nat \<Rightarrow> File list" where
  "new_entries [] k = []"
| "new_entries (n # ns) k = File n False (Some k) [] # new_entries ns (Suc k)"

text \<open>A slice is well formed when its length is within its capacity (the nil slice has length 0).\<close>

definition slice_ok :: "state \<Rightarrow> Buffer \<Rightarrow> bool" where
  "slice_ok s b = (buflen b \<le> slice_cap s b)"

text \<open>Every node of the subtree has a blob.\<close>

fun bound :: "File \<Rightarrow> bool" where
  "bound (File nm d b cs) = (b \<noteq> None \<and> list_all bound cs)"

text \<open>
  The states the server reaches: it starts from \<^verbatim>\<open>NewTree\<close>; the tree changes by
  \<^verbatim>\<open>Insert\<close> (a create request, or the population at start-up) and by \<^verbatim>\<open>Sync\<close>
  (reconciliation, the first step of every other operation); whatever else happens
  leaves the tree as it is.
\<close>

inductive reachable :: "state \<Rightarrow> bool" where
  start: "root s = NewTree \<Longrightarrow> reachable s"
| insert: "reachable s \<Longrightarrow> reachable (fst (Insert s full isDir))"
| sync: "reachable s \<Longrightarrow> reachable (fst (Sync s))"
| other: "reachable s \<Longrightarrow> root s' = root s \<Longrightarrow> reachable s'"

text \<open>
  What \<^verbatim>\<open>Insert\<close> and \<^verbatim>\<open>Sync\<close> leave alone: the byte arrays, the remote container, the
  listing offset, the blobs that exist, and name, kind and blob of every node of the
  tree, which loses no child.
\<close>

definition same_node :: "File \<Rightarrow> File \<Rightarrow> bool" where
  "same_node f f' =
     (name f' = name f \<and> dir f' = dir f \<and> Blob f' = Blob f \<and>
      length (Children f) \<le> length (Children f'))"

definition keeps :: "state \<Rightarrow> state \<Rightarrow> bool" where
  "keeps s s' =
     (arrays s' = arrays s \<and> narrays s' = narrays s \<and> objects s' = objects s \<and>
      list_fails s' = list_fails s \<and> upload_fails s' = upload_fails s \<and>
      download_fails s' = download_fails s \<and> ReaddirOffset s' = ReaddirOffset s \<and>
      reset_sent s' = reset_sent s \<and> nblobs s \<le> nblobs s' \<and>
      (\<forall>r. r < nblobs s \<longrightarrow> blobs s' r = blobs s r) \<and>
      (\<forall>p f. get (root s) p = Some f \<longrightarrow> (\<exists>f'. get (root s') p = Some f' \<and> same_node f f')))"

subsection \<open>A state to start from\<close>

text \<open>
  The server at start-up over a container that holds \<open>objs\<close>: the stub root, no blob,
  no byte array, the listing offset 0, and a remote that answers every request.
\<close>

definition start_state :: "(string \<times> byte list) list \<Rightarrow> state" where
  "start_state objs =
     \<lparr>root = NewTree,
      blobs = (\<lambda>_. \<lparr>bname = [], body = \<lparr>bufp = None, buflen = 0\<rparr>\<rparr>), nblobs = 0,
      arrays = (\<lambda>_. []), narrays = 0, objects = objs, list_fails = False,
      upload_fails = False, download_fails = False, ReaddirOffset = 0, reset_sent = 0\<rparr>"

text \<open>
  The same server after \<^verbatim>\<open>ReadAt\<close> on the entry \<^verbatim>\<open>/f\<close> of a container that holds the
  object \<^verbatim>\<open>f\<close> with the bytes of \<^verbatim>\<open>hello\<close>: reconciliation has inserted the entry and the
  download has filled its body.
\<close>

definition hello_state :: state where
  "hello_state = fst (ReadAt_fs (start_state [(''f'', [104, 101, 108, 108, 111])]) [0] 5 0)"

text \<open>
  A server over a container that holds the object \<^verbatim>\<open>f\<close>, after \<^verbatim>\<open>Insert("/a", true)\<close> and
  \<^verbatim>\<open>Insert("/a/x", false)\<close>: the directory \<^verbatim>\<open>/a\<close> holds \<^verbatim>\<open>x\<close>, and the next reconciliation
  adds \<^verbatim>\<open>/f\<close> to the root.
\<close>

definition two_dirs_state :: state where
  "two_dirs_state =
     fst (Insert (fst (Insert (start_state [(''f'', [])]) ''/a'' True)) ''/a/x'' False)"

section \<open>Theorems\<close>

subsection \<open>What reconciliation leaves alone\<close>

lemma same_node_refl: "same_node f f"
  by (simp add: same_node_def)

lemma same_node_trans: "same_node f g \<Longrightarrow> same_node g h \<Longrightarrow> same_node f h"
  by (simp add: same_node_def)

lemma get_upd_append:
  "get t p = Some f \<Longrightarrow> \<exists>f'. get (upd (append_child c) t q) p = Some f' \<and> same_node f f'"
proof (induction p arbitrary: t q f)
  case Nil
  then show ?case
    by (cases q) (simp_all add: append_child_def same_node_def)
next
  case (Cons i p)
  from Cons.prems have i: "i < length (Children t)" and g: "get (Children t ! i) p = Some f"
    by (simp_all split: if_splits)
  show ?case
  proof (cases q)
    case Nil
    with i g show ?thesis
      by (simp add: append_child_def nth_append same_node_refl)
  next
    case (Cons j q')
    show ?thesis
    proof (cases "i = j")
      case True
      from Cons.IH [OF g, of q'] obtain f' where
        "get (upd (append_child c) (Children t ! i) q') p = Some f'" "same_node f f'" by blast
      with i True Cons show ?thesis by simp
    next
      case False
      with i g Cons show ?thesis by (simp add: same_node_refl)
    qed
  qed
qed

lemma keeps_refl: "keeps s s"
  by (simp add: keeps_def same_node_refl)

lemma keeps_trans:
  assumes "keeps s t" "keeps t u"
  shows "keeps s u"
proof -
  have tree: "\<exists>f''. get (root u) p = Some f'' \<and> same_node f f''" if "get (root s) p = Some f" for p f
  proof -
    from assms(1) that obtain f' where 1: "get (root t) p = Some f'" "same_node f f'"
      unfolding keeps_def by blast
    from assms(2) 1(1) obtain f'' where 2: "get (root u) p = Some f''" "same_node f' f''"
      unfolding keeps_def by blast
    from 1(2) 2 show ?thesis by (blast intro: same_node_trans)
  qed
  have blobs: "blobs u r = blobs s r" if "r < nblobs s" for r
  proof -
    from assms(1) that have "blobs t r = blobs s r" "r < nblobs t" unfolding keeps_def by auto
    with assms(2) show ?thesis unfolding keeps_def by auto
  qed
  from assms have rest: "arrays u = arrays s" "narrays u = narrays s" "objects u = objects s"
    "list_fails u = list_fails s" "upload_fails u = upload_fails s"
    "download_fails u = download_fails s" "ReaddirOffset u = ReaddirOffset s"
    "reset_sent u = reset_sent s" "nblobs s \<le> nblobs u"
    unfolding keeps_def by auto
  show ?thesis unfolding keeps_def using rest tree blobs by blast
qed

lemma NewChild_keeps: "keeps s (fst (NewChild s t tf nm isDir))"
  unfolding keeps_def NewChild_def NewBlob_def
  by (simp add: get_upd_append)

lemma NewChild_keeps_eq: "NewChild s t tf nm isDir = (s', p) \<Longrightarrow> keeps s s'"
  using NewChild_keeps [of s t tf nm isDir] by simp

lemma Insert_keeps: "keeps s (fst (Insert s full isDir))"
  unfolding Insert_def
  by (auto simp: keeps_refl split: prod.splits sum.splits option.splits
      intro: NewChild_keeps_eq)

lemma Sync_loop_keeps: "keeps s (fst (Sync_loop s diff))"
proof (induction diff arbitrary: s)
  case Nil
  show ?case by (simp add: keeps_refl)
next
  case (Cons nm diff)
  have k: "keeps s (fst (Insert s (CHR ''/'' # nm) False))" by (rule Insert_keeps)
  show ?case
  proof (cases "Insert s (CHR ''/'' # nm) False")
    case (Pair s' res)
    with k have k': "keeps s s'" by simp
    show ?thesis
    proof (cases res)
      case (Inl e)
      with Pair k' show ?thesis by simp
    next
      case (Inr f)
      with Pair have "fst (Sync_loop s (nm # diff)) = fst (Sync_loop s' diff)" by simp
      with keeps_trans [OF k' Cons.IH [of s']] show ?thesis by simp
    qed
  qed
qed

lemma Sync_keeps: "keeps s (fst (Sync s))"
  unfolding Sync_def by (simp add: keeps_refl Sync_loop_keeps split: sum.splits)

lemma keeps_blob: "keeps s s' \<Longrightarrow> r < nblobs s \<Longrightarrow> blobs s' r = blobs s r"
  by (simp add: keeps_def)

lemma keeps_nblobs: "keeps s s' \<Longrightarrow> r < nblobs s \<Longrightarrow> r < nblobs s'"
  by (simp add: keeps_def)

lemma keeps_get:
  "keeps s s' \<Longrightarrow> get (root s) p = Some f \<Longrightarrow>
     \<exists>f'. get (root s') p = Some f' \<and> name f' = name f \<and> dir f' = dir f \<and> Blob f' = Blob f"
  unfolding keeps_def same_node_def by blast

lemma keeps_bytes:
  "keeps s s' \<Longrightarrow> slice_bytes s' b = slice_bytes s b"
  by (simp add: keeps_def slice_bytes_def split: option.splits)

lemma keeps_cap:
  "keeps s s' \<Longrightarrow> slice_cap s' b = slice_cap s b"
  by (simp add: keeps_def slice_cap_def split: option.splits)


subsection \<open>The buffer operations\<close>

lemma Buffer_Write_n: "snd (Buffer_Write s r p) = length p"
  by (simp add: Buffer_Write_def Let_def split: option.splits)

lemma Buffer_Write_bytes:
  assumes "slice_ok s (body (blobs s r))"
  shows "slice_bytes (fst (Buffer_Write s r p)) (body (blobs (fst (Buffer_Write s r p)) r))
         = slice_bytes s (body (blobs s r)) @ p"
proof (cases "bufp (body (blobs s r))")
  case None
  with assms have l: "buflen (body (blobs s r)) = 0"
    by (simp add: slice_ok_def slice_cap_def)
  from None l show ?thesis
    by (simp add: Buffer_Write_def Let_def slice_cap_def slice_bytes_def set_body_def)
next
  case (Some a)
  with assms have l: "buflen (body (blobs s r)) \<le> length (arrays s a)"
    by (simp add: slice_ok_def slice_cap_def)
  from Some l show ?thesis
    by (simp add: Buffer_Write_def Let_def slice_cap_def slice_bytes_def set_body_def)
qed

lemma Buffer_Write_other:
  "nblobs (fst (Buffer_Write s r p)) = nblobs s \<and> root (fst (Buffer_Write s r p)) = root s \<and>
   objects (fst (Buffer_Write s r p)) = objects s \<and>
   upload_fails (fst (Buffer_Write s r p)) = upload_fails s \<and>
   download_fails (fst (Buffer_Write s r p)) = download_fails s \<and>
   list_fails (fst (Buffer_Write s r p)) = list_fails s \<and>
   bname (blobs (fst (Buffer_Write s r p)) r) = bname (blobs s r)"
  by (simp add: Buffer_Write_def Let_def set_body_def split: option.splits)

lemma Buffer_Reset_simps:
  "nblobs (Buffer_Reset s r) = nblobs s" "root (Buffer_Reset s r) = root s"
  "objects (Buffer_Reset s r) = objects s" "arrays (Buffer_Reset s r) = arrays s"
  "upload_fails (Buffer_Reset s r) = upload_fails s"
  "download_fails (Buffer_Reset s r) = download_fails s"
  "list_fails (Buffer_Reset s r) = list_fails s"
  "bname (blobs (Buffer_Reset s r) r) = bname (blobs s r)"
  "buflen (body (blobs (Buffer_Reset s r) r)) = 0"
  "bufp (body (blobs (Buffer_Reset s r) r)) = bufp (body (blobs s r))"
  by (simp_all add: Buffer_Reset_def set_body_def)

lemma Buffer_Reset_ok: "slice_ok (Buffer_Reset s r) (body (blobs (Buffer_Reset s r) r))"
  by (simp add: slice_ok_def Buffer_Reset_simps)

lemma Buffer_Reset_bytes: "slice_bytes (Buffer_Reset s r) (body (blobs (Buffer_Reset s r) r)) = []"
  by (simp add: slice_bytes_def Buffer_Reset_simps split: option.splits)

lemma Buffer_Truncate_ok:
  assumes "0 \<le> n" "n \<le> int (buflen (body (blobs s r)))"
  shows "\<exists>s'. Buffer_Truncate s r n = Inr s' \<and> arrays s' = arrays s \<and> root s' = root s \<and>
     nblobs s' = nblobs s \<and> objects s' = objects s \<and> upload_fails s' = upload_fails s \<and>
     download_fails s' = download_fails s \<and> list_fails s' = list_fails s \<and>
     bname (blobs s' r) = bname (blobs s r) \<and>
     bufp (body (blobs s' r)) = bufp (body (blobs s r)) \<and>
     buflen (body (blobs s' r)) = nat n"
  using assms by (auto simp: Buffer_Truncate_def Buffer_Reset_def set_body_def)


subsection \<open>Search\<close>

text \<open>
  Claim C2. The specification has \<^verbatim>\<open>search\<close> walk from the root and match each segment
  against the children of the node reached so far, and resolve the root path to the
  root. \<^verbatim>\<open>File.Search\<close> matches every segment against the children of the root, and
  for the path \<^verbatim>\<open>/\<close> it looks for a child with the empty name. After
  \<^verbatim>\<open>Insert("/a", true)\<close> and \<^verbatim>\<open>Insert("/a/c", false)\<close> on the empty tree, the entry
  \<^verbatim>\<open>/a/c\<close> is in the tree (\<^verbatim>\<open>Insert\<close> put it under \<^verbatim>\<open>a\<close>) and the search of the
  specification reaches it, but \<^verbatim>\<open>Search("/a/c")\<close> and \<^verbatim>\<open>Search("/")\<close> both fail; after a
  further \<^verbatim>\<open>Insert("/c", true)\<close>, \<^verbatim>\<open>Search("/a/c")\<close> returns the child \<^verbatim>\<open>c\<close> of the root.
\<close>

theorem Search_matches_root_children_only:
  "root (fst (Insert (fst (Insert (start_state []) ''/a'' True)) ''/a/c'' False))
     = File ''/'' True None [File ''a'' True (Some 0) [File ''c'' False (Some 1) []]] \<and>
   Search (File ''/'' True None [File ''a'' True (Some 0) [File ''c'' False (Some 1) []]])
     ''/a/c'' = Inl ErrNotFound \<and>
   spec_search (File ''/'' True None [File ''a'' True (Some 0) [File ''c'' False (Some 1) []]])
     ''/a/c'' = Inr [0, 0] \<and>
   Search (File ''/'' True None [File ''a'' True (Some 0) [File ''c'' False (Some 1) []]])
     ''/'' = Inl ErrNotFound \<and>
   spec_search (File ''/'' True None [File ''a'' True (Some 0) [File ''c'' False (Some 1) []]])
     ''/'' = Inr [] \<and>
   Search (File ''/'' True None
             [File ''a'' True (Some 0) [File ''c'' False (Some 1) []], File ''c'' True (Some 2) []])
     ''/a/c'' = Inr [1]"
  by code_simp

subsection \<open>Writing and reading through an entry\<close>

lemma WriteAt_after_Sync:
  assumes g: "get (root s) f = Some file" and b: "Blob file = Some r" and r: "r < nblobs s"
  shows "WriteAt s f p off =
     (let s1 = fst (Sync s); buf = Contents s r in
      if off > int (buflen buf) then (s1, 0, Some EOF)
      else
        (case (if off < int (buflen buf) then Buffer_Truncate s1 r off else Inr s1) of
           Inl e \<Rightarrow> (s1, 0, Some e)
         | Inr s2 \<Rightarrow> WriteAt_upload (fst (Buffer_Write s2 r p)) r buf (length p)))"
proof -
  have k: "keeps s (fst (Sync s))" by (rule Sync_keeps)
  from keeps_get [OF k g] b have "Option.bind (get (root (fst (Sync s))) f) Blob = Some r"
    by auto
  moreover from keeps_blob [OF k r] have "Contents (fst (Sync s)) r = Contents s r"
    by (simp add: Contents_def)
  ultimately show ?thesis
    by (simp add: WriteAt_def Let_def case_prod_beta Buffer_Write_n split: sum.splits)
qed

lemma WriteAt_upload_ok:
  "\<not> upload_fails s \<Longrightarrow>
   WriteAt_upload s r buf n =
     (s\<lparr>objects := AList.update (bname (blobs s r)) (slice_bytes s (body (blobs s r))) (objects s)\<rparr>,
      n, None)"
  by (simp add: WriteAt_upload_def Upload_def)

lemma WriteAt_written:
  assumes g: "get (root s) f = Some file" and b: "Blob file = Some r" and r: "r < nblobs s"
    and ok: "nat off \<le> slice_cap s (Contents s r)"
    and off: "0 \<le> off" "off \<le> int (buflen (Contents s r))" and up: "\<not> upload_fails s"
  shows "\<exists>s3. WriteAt s f p off =
           (s3\<lparr>objects := AList.update (bname (blobs s r))
                              (take (nat off) (slice_bytes s (Contents s r)) @ p) (objects s)\<rparr>,
            length p, None) \<and>
         slice_bytes s3 (Contents s3 r) = take (nat off) (slice_bytes s (Contents s r)) @ p \<and>
         root s3 = root (fst (Sync s)) \<and> nblobs s3 = nblobs (fst (Sync s)) \<and>
         download_fails s3 = download_fails s \<and> list_fails s3 = list_fails s \<and>
         bname (blobs s3 r) = bname (blobs s r)"
proof -
  define s1 where "s1 = fst (Sync s)"
  define buf where "buf = Contents s r"
  have k: "keeps s s1" unfolding s1_def by (rule Sync_keeps)
  have bl: "blobs s1 r = blobs s r" by (rule keeps_blob [OF k r])
  have ar: "arrays s1 = arrays s" using k by (simp add: keeps_def)
  have fl: "upload_fails s1 = upload_fails s" "objects s1 = objects s"
    "download_fails s1 = download_fails s" "list_fails s1 = list_fails s"
    using k by (simp_all add: keeps_def)
  obtain s2 where s2: "(if off < int (buflen buf) then Buffer_Truncate s1 r off else Inr s1) = Inr s2"
    and s2a: "arrays s2 = arrays s" and s2p: "bufp (body (blobs s2 r)) = bufp buf"
    and s2l: "buflen (body (blobs s2 r)) = nat off"
    and s2o: "root s2 = root s1" "nblobs s2 = nblobs s1" "objects s2 = objects s"
      "upload_fails s2 = upload_fails s" "bname (blobs s2 r) = bname (blobs s r)"
      "download_fails s2 = download_fails s" "list_fails s2 = list_fails s"
  proof (cases "off < int (buflen buf)")
    case True
    from off True have "0 \<le> off" "off \<le> int (buflen (body (blobs s1 r)))"
      by (simp_all add: buf_def Contents_def bl)
    from Buffer_Truncate_ok [OF this] obtain s2 where
      "Buffer_Truncate s1 r off = Inr s2" "arrays s2 = arrays s1" "root s2 = root s1"
      "nblobs s2 = nblobs s1" "objects s2 = objects s1" "upload_fails s2 = upload_fails s1"
      "download_fails s2 = download_fails s1" "list_fails s2 = list_fails s1"
      "bname (blobs s2 r) = bname (blobs s1 r)"
      "bufp (body (blobs s2 r)) = bufp (body (blobs s1 r))"
      "buflen (body (blobs s2 r)) = nat off"
      by blast
    then show ?thesis
      using that [of s2] True bl ar fl by (simp add: buf_def Contents_def)
  next
    case False
    with off have "nat off = buflen buf" by (simp add: buf_def)
    with False show ?thesis
      using that [of s1] bl ar fl by (simp add: buf_def Contents_def)
  qed
  have ok2: "slice_ok s2 (body (blobs s2 r))"
    using ok s2a s2p s2l
    by (simp add: slice_ok_def slice_cap_def buf_def split: option.splits)
  have noff: "nat off \<le> buflen buf" using off by (simp add: buf_def)
  have by2: "slice_bytes s2 (body (blobs s2 r)) = take (nat off) (slice_bytes s buf)"
    using noff s2a s2p s2l
    by (simp add: slice_bytes_def min_absorb1 split: option.splits)
  define s3 where "s3 = fst (Buffer_Write s2 r p)"
  have by3: "slice_bytes s3 (body (blobs s3 r)) = take (nat off) (slice_bytes s buf) @ p"
    unfolding s3_def using Buffer_Write_bytes [OF ok2, of p] by2 by simp
  have o3: "nblobs s3 = nblobs s1" "root s3 = root s1" "objects s3 = objects s"
    "upload_fails s3 = upload_fails s" "bname (blobs s3 r) = bname (blobs s r)"
    "download_fails s3 = download_fails s" "list_fails s3 = list_fails s"
    unfolding s3_def using Buffer_Write_other [of s2 r p] s2o by simp_all
  have "WriteAt s f p off = WriteAt_upload s3 r buf (length p)"
    using WriteAt_after_Sync [OF g b r, of p off] off s2
    by (simp add: Let_def buf_def [symmetric] s1_def [symmetric] s3_def)
  also have "\<dots> = (s3\<lparr>objects := AList.update (bname (blobs s r))
                       (take (nat off) (slice_bytes s buf) @ p) (objects s)\<rparr>, length p, None)"
    using up o3 by3 by (simp add: WriteAt_upload_ok)
  finally show ?thesis
    using by3 o3 by (auto simp: buf_def Contents_def s1_def)
qed

lemma Buffer_Write_len:
  "slice_ok s (body (blobs s r)) \<Longrightarrow>
   buflen (body (blobs (fst (Buffer_Write s r p)) r)) = buflen (body (blobs s r)) + length p"
  by (auto simp: Buffer_Write_def Let_def set_body_def slice_cap_def slice_ok_def
      split: option.splits)

lemma Download_ok:
  assumes dl: "\<not> download_fails s" and obj: "map_of (objects s) (bname (blobs s r)) = Some d"
  shows "\<exists>s'. Download s r = (s', None) \<and> slice_bytes s' (Contents s' r) = d \<and>
           buflen (Contents s' r) = length d \<and> root s' = root s \<and> nblobs s' = nblobs s"
proof -
  define s' where "s' = fst (Buffer_Write (Buffer_Reset s r) r d)"
  have 1: "Download s r = (s', None)"
    using dl obj by (simp add: Download_def s'_def)
  have 2: "slice_bytes s' (Contents s' r) = d"
    unfolding s'_def Contents_def
    using Buffer_Write_bytes [OF Buffer_Reset_ok, of s r d] by (simp add: Buffer_Reset_bytes)
  have 3: "buflen (Contents s' r) = length d"
    unfolding s'_def Contents_def
    by (simp add: Buffer_Write_len [OF Buffer_Reset_ok] Buffer_Reset_simps)
  have 4: "root s' = root s" "nblobs s' = nblobs s"
    unfolding s'_def using Buffer_Write_other [of "Buffer_Reset s r" r d]
    by (simp_all add: Buffer_Reset_simps)
  from 1 2 3 4 show ?thesis by blast
qed

lemma Size_fs_file:
  "\<not> dir f \<Longrightarrow> Size_fs s f = (fst (Sync (fst (Sync s))), Size_file (fst (Sync (fst (Sync s)))) f)"
  by (simp add: Size_fs_def IsDir_def)

lemma Size_part000_file:
  "\<not> dir f \<Longrightarrow>
   Size_part000 s f = (fst (Sync (fst (Sync s))), Size_file (fst (Sync (fst (Sync s)))) f)"
  by (simp add: Size_part000_def IsDir_def)

lemma ReadAt_with_downloaded:
  assumes sz: "\<And>s f. \<not> dir f \<Longrightarrow>
                 Size s f = (fst (Sync (fst (Sync s))), Size_file (fst (Sync (fst (Sync s)))) f)"
    and g: "get (root s) f = Some file" and b: "Blob file = Some r" and nd: "\<not> dir file"
    and r: "r < nblobs s" and dl: "\<not> download_fails s"
    and obj: "map_of (objects s) (bname (blobs s r)) = Some d"
  shows "snd (ReadAt_with Size s f plen offset) =
     (if offset \<ge> int (length d) then (0, [], Some EOF)
      else if offset < 0 then (0, [], Some PanicSliceBounds)
      else (min plen (length d - nat offset), take plen (drop (nat offset) d), None))"
proof -
  define s1 where "s1 = fst (Sync s)"
  have k: "keeps s s1" unfolding s1_def by (rule Sync_keeps)
  from keeps_get [OF k g] b nd obtain f1 where
    f1: "get (root s1) f = Some f1" "Blob f1 = Some r" "\<not> dir f1" by auto
  have "download_fails s1 = download_fails s" "objects s1 = objects s" "blobs s1 r = blobs s r"
    using k r by (simp_all add: keeps_def)
  with dl obj have "\<not> download_fails s1" "map_of (objects s1) (bname (blobs s1 r)) = Some d"
    by simp_all
  from Download_ok [OF this] obtain s2 where
    s2: "Download s1 r = (s2, None)" "slice_bytes s2 (Contents s2 r) = d"
      "buflen (Contents s2 r) = length d" "nblobs s2 = nblobs s1"
    by blast
  define s3 where "s3 = fst (Sync (fst (Sync s2)))"
  have k3: "keeps s2 s3" unfolding s3_def
    by (rule keeps_trans [OF Sync_keeps Sync_keeps])
  have r2: "r < nblobs s2" using s2(4) keeps_nblobs [OF k r] by simp
  have c3: "Contents s3 r = Contents s2 r"
    using keeps_blob [OF k3 r2] by (simp add: Contents_def)
  have b3: "slice_bytes s3 (Contents s2 r) = d"
    using keeps_bytes [OF k3] s2(2) by simp
  have size: "Size s2 f1 = (s3, Inr (int (length d)))"
    using sz [OF f1(3), of s2] f1(2) c3 s2(3) by (simp add: s3_def Size_file_def)
  have "ReadAt_with Size s f plen offset =
          (if offset \<ge> int (length d) then (s3, 0, [], Some EOF)
           else ReadAt_copy s3 r plen offset)"
    using f1 s2(1) size by (simp add: ReadAt_with_def Let_def s1_def [symmetric])
  then show ?thesis
    using c3 b3 s2(3) by (auto simp: ReadAt_copy_def Let_def)
qed

lemma WriteAt_ok_upload:
  assumes g: "get (root s) f = Some file" and b: "Blob file = Some r" and r: "r < nblobs s"
    and w: "snd (snd (WriteAt s f p 0)) = None"
  shows "\<not> upload_fails s"
proof
  assume up: "upload_fails s"
  define s1 where "s1 = fst (Sync s)"
  have k: "keeps s s1" unfolding s1_def by (rule Sync_keeps)
  have u1: "upload_fails s1" using k up by (simp add: keeps_def)
  have tr: "Buffer_Truncate s1 r 0 = Inr (Buffer_Reset s1 r)" by (simp add: Buffer_Truncate_def)
  have ne: "snd (snd (WriteAt_upload (fst (Buffer_Write s2 r p)) r buf n)) \<noteq> None"
    if "upload_fails s2" for s2 buf n
    using that Buffer_Write_other [of s2 r p] by (simp add: WriteAt_upload_def Upload_def)
  have "snd (snd (WriteAt s f p 0)) \<noteq> None"
  proof (cases "0 < buflen (Contents s r)")
    case True
    then have "WriteAt s f p 0 =
        WriteAt_upload (fst (Buffer_Write (Buffer_Reset s1 r) r p)) r (Contents s r) (length p)"
      using WriteAt_after_Sync [OF g b r, of p 0] by (simp add: Let_def s1_def [symmetric] tr)
    with ne [of "Buffer_Reset s1 r"] u1 show ?thesis by (simp add: Buffer_Reset_simps)
  next
    case False
    then have "WriteAt s f p 0 =
        WriteAt_upload (fst (Buffer_Write s1 r p)) r (Contents s r) (length p)"
      using WriteAt_after_Sync [OF g b r, of p 0] by (simp add: Let_def s1_def [symmetric])
    with ne [of s1] u1 show ?thesis by simp
  qed
  with w show False by simp
qed


lemma objects_update_bytes:
  "slice_bytes (s\<lparr>objects := x\<rparr>) b = slice_bytes s b"
  "Contents (s\<lparr>objects := x\<rparr>) r = Contents s r"
  by (simp_all add: slice_bytes_def Contents_def split: option.splits)

text \<open>
  Claim C6, as amended. For an entry with a blob whose buffer is a well-formed slice of
  length \<open>L\<close>: a write at an offset beyond \<open>L\<close> returns 0 and \<^verbatim>\<open>io.EOF\<close> and leaves the
  buffer and the byte arrays as they were; a write at an offset from 0 to \<open>L\<close> whose upload
  succeeds returns the number of bytes written and leaves in the buffer the first \<open>off\<close>
  bytes of the old content followed by the bytes written.
\<close>

theorem WriteAt_offset_semantics:
  assumes g: "get (root s) f = Some file" and b: "Blob file = Some r" and r: "r < nblobs s"
    and ok: "slice_ok s (Contents s r)"
  shows "(int (buflen (Contents s r)) < off \<longrightarrow>
            snd (WriteAt s f p off) = (0, Some EOF) \<and>
            Contents (fst (WriteAt s f p off)) r = Contents s r \<and>
            arrays (fst (WriteAt s f p off)) = arrays s) \<and>
         (0 \<le> off \<and> off \<le> int (buflen (Contents s r)) \<and> \<not> upload_fails s \<longrightarrow>
            snd (WriteAt s f p off) = (length p, None) \<and>
            slice_bytes (fst (WriteAt s f p off)) (Contents (fst (WriteAt s f p off)) r)
              = take (nat off) (slice_bytes s (Contents s r)) @ p)"
proof (intro conjI impI)
  assume big: "int (buflen (Contents s r)) < off"
  have k: "keeps s (fst (Sync s))" by (rule Sync_keeps)
  from big have w: "WriteAt s f p off = (fst (Sync s), 0, Some EOF)"
    using WriteAt_after_Sync [OF g b r, of p off] by (simp add: Let_def)
  show "snd (WriteAt s f p off) = (0, Some EOF)" by (simp add: w)
  show "Contents (fst (WriteAt s f p off)) r = Contents s r"
    using keeps_blob [OF k r] by (simp add: w Contents_def)
  show "arrays (fst (WriteAt s f p off)) = arrays s"
    using k by (simp add: w keeps_def)
next
  assume a: "0 \<le> off \<and> off \<le> int (buflen (Contents s r)) \<and> \<not> upload_fails s"
  then have "nat off \<le> slice_cap s (Contents s r)"
    using ok unfolding slice_ok_def by linarith
  from WriteAt_written [OF g b r this, of p] a obtain s3 where
    w: "WriteAt s f p off =
         (s3\<lparr>objects := AList.update (bname (blobs s r))
                            (take (nat off) (slice_bytes s (Contents s r)) @ p) (objects s)\<rparr>,
          length p, None)"
    and by3: "slice_bytes s3 (Contents s3 r) = take (nat off) (slice_bytes s (Contents s r)) @ p"
    by blast
  show "snd (WriteAt s f p off) = (length p, None)" by (simp add: w)
  show "slice_bytes (fst (WriteAt s f p off)) (Contents (fst (WriteAt s f p off)) r)
          = take (nat off) (slice_bytes s (Contents s r)) @ p"
    using by3 by (simp add: w objects_update_bytes)
qed

text \<open>
  The statement at the entry \<^verbatim>\<open>/f\<close> holding \<^verbatim>\<open>hello\<close>: a write of \<^verbatim>\<open>X\<close> at offset 7 is
  refused, a write of \<^verbatim>\<open>X\<close> at offset 2 leaves \<^verbatim>\<open>heX\<close>.
\<close>

theorem WriteAt_offset_semantics_witness:
  "get (root hello_state) [0] = Some (File ''f'' False (Some 0) []) \<and>
   0 < nblobs hello_state \<and> slice_ok hello_state (Contents hello_state 0) \<and>
   slice_bytes hello_state (Contents hello_state 0) = [104, 101, 108, 108, 111] \<and>
   \<not> upload_fails hello_state \<and>
   snd (WriteAt hello_state [0] [88] 7) = (0, Some EOF) \<and>
   Contents (fst (WriteAt hello_state [0] [88] 7)) 0 = Contents hello_state 0 \<and>
   snd (WriteAt hello_state [0] [88] 2) = (1, None) \<and>
   slice_bytes (fst (WriteAt hello_state [0] [88] 2))
     (Contents (fst (WriteAt hello_state [0] [88] 2)) 0) = [104, 101, 88]"
proof -
  have h1: "get (root hello_state) [0] = Some (File ''f'' False (Some 0) [])" by code_simp
  have h2: "Blob (File ''f'' False (Some 0) []) = Some 0" by simp
  have h3: "0 < nblobs hello_state" by code_simp
  have h4: "slice_ok hello_state (Contents hello_state 0)" by code_simp
  have h5: "slice_bytes hello_state (Contents hello_state 0) = [104, 101, 108, 108, 111]"
    by code_simp
  have h6: "buflen (Contents hello_state 0) = 5" by code_simp
  have h7: "\<not> upload_fails hello_state" by code_simp
  note T = WriteAt_offset_semantics [OF h1 h2 h3 h4]
  from T [of 7 "[88]"] T [of 2 "[88]"] h1 h3 h4 h5 h6 h7 show ?thesis by simp
qed

text \<open>
  Claim C6 as the specification states it has no condition on the upload and none on
  the sign of the offset. At the entry \<^verbatim>\<open>/f\<close> holding \<^verbatim>\<open>hello\<close>, a write of one byte at
  offset 5 whose upload fails returns 0 and the upload error and leaves \<^verbatim>\<open>hello\<close>, not
  \<^verbatim>\<open>hello!\<close>; a write at offset -1 panics in \<^verbatim>\<open>Truncate\<close>.
\<close>

theorem WriteAt_failed_upload_or_negative_offset:
  "(let s = hello_state\<lparr>upload_fails := True\<rparr>; w = WriteAt s [0] [33] 5
    in slice_bytes s (Contents s 0) = [104, 101, 108, 108, 111] \<and>
       snd w = (0, Some ErrUpload) \<and>
       slice_bytes (fst w) (Contents (fst w) 0) = [104, 101, 108, 108, 111]) \<and>
   snd (WriteAt hello_state [0] [33] (- 1)) = (0, Some PanicTruncate)"
  by code_simp

text \<open>
  Claim C7. For an entry that is not a directory and has a blob: when \<^verbatim>\<open>WriteAt\<close> of the
  bytes \<open>bs\<close> at offset 0 returns no error and the remote answers downloads, \<^verbatim>\<open>ReadAt\<close> at
  offset 0 into a slice of the length of \<open>bs\<close> reads exactly \<open>bs\<close>, in both revisions
  (for the empty \<open>bs\<close> the read returns no byte and \<^verbatim>\<open>io.EOF\<close>).
\<close>

theorem write_read_roundtrip:
  assumes g: "get (root s) f = Some file" and b: "Blob file = Some r" and nd: "\<not> dir file"
    and r: "r < nblobs s"
    and w: "snd (snd (WriteAt s f bs 0)) = None"
    and dl: "\<not> download_fails s"
  shows "snd (ReadAt_fs (fst (WriteAt s f bs 0)) f (length bs) 0)
           = (length bs, bs, if bs = [] then Some EOF else None) \<and>
         snd (ReadAt_part000 (fst (WriteAt s f bs 0)) f (length bs) 0)
           = (length bs, bs, if bs = [] then Some EOF else None)"
proof -
  have up: "\<not> upload_fails s" by (rule WriteAt_ok_upload [OF g b r w])
  have cap: "nat 0 \<le> slice_cap s (Contents s r)" by simp
  from WriteAt_written [OF g b r cap _ _ up, of bs] obtain s3 where
    wr: "WriteAt s f bs 0 =
          (s3\<lparr>objects := AList.update (bname (blobs s r)) bs (objects s)\<rparr>, length bs, None)"
    and s3: "root s3 = root (fst (Sync s))" "nblobs s3 = nblobs (fst (Sync s))"
      "download_fails s3 = download_fails s" "bname (blobs s3 r) = bname (blobs s r)"
    by auto
  define s' where "s' = fst (WriteAt s f bs 0)"
  have k: "keeps s (fst (Sync s))" by (rule Sync_keeps)
  from keeps_get [OF k g] b nd obtain f1 where
    f1: "get (root s') f = Some f1" "Blob f1 = Some r" "\<not> dir f1"
    by (auto simp: s'_def wr s3)
  have r': "r < nblobs s'" using keeps_nblobs [OF k r] by (simp add: s'_def wr s3)
  have dl': "\<not> download_fails s'" using dl by (simp add: s'_def wr s3)
  have obj: "map_of (objects s') (bname (blobs s' r)) = Some bs"
    by (simp add: s'_def wr s3 update_conv')
  have "snd (ReadAt_with Size_fs s' f (length bs) 0)
          = (length bs, bs, if bs = [] then Some EOF else None)"
    using ReadAt_with_downloaded [of Size_fs, OF Size_fs_file f1 r' dl' obj, of "length bs" 0]
    by simp
  moreover have "snd (ReadAt_with Size_part000 s' f (length bs) 0)
          = (length bs, bs, if bs = [] then Some EOF else None)"
    using ReadAt_with_downloaded [of Size_part000, OF Size_part000_file f1 r' dl' obj,
        of "length bs" 0]
    by simp
  ultimately show ?thesis
    by (simp add: ReadAt_fs_def ReadAt_part000_def s'_def)
qed

text \<open>The statement at the entry \<^verbatim>\<open>/f\<close>, written with \<^verbatim>\<open>XYZ\<close>.\<close>

theorem write_read_roundtrip_witness:
  "get (root hello_state) [0] = Some (File ''f'' False (Some 0) []) \<and>
   \<not> dir (File ''f'' False (Some 0) []) \<and> 0 < nblobs hello_state \<and>
   snd (snd (WriteAt hello_state [0] [88, 89, 90] 0)) = None \<and>
   \<not> download_fails hello_state \<and>
   snd (ReadAt_fs (fst (WriteAt hello_state [0] [88, 89, 90] 0)) [0] 3 0)
     = (3, [88, 89, 90], None) \<and>
   snd (ReadAt_part000 (fst (WriteAt hello_state [0] [88, 89, 90] 0)) [0] 3 0)
     = (3, [88, 89, 90], None)"
proof -
  have h1: "get (root hello_state) [0] = Some (File ''f'' False (Some 0) [])" by code_simp
  have h2: "Blob (File ''f'' False (Some 0) []) = Some 0" by simp
  have h3: "\<not> dir (File ''f'' False (Some 0) [])" by simp
  have h4: "0 < nblobs hello_state" by code_simp
  have h5: "snd (snd (WriteAt hello_state [0] [88, 89, 90] 0)) = None" by code_simp
  have h6: "\<not> download_fails hello_state" by code_simp
  from write_read_roundtrip [OF h1 h2 h3 h4 h5 h6] h1 h3 h4 h5 h6 show ?thesis
    by (simp add: numeral_3_eq_3)
qed

subsection \<open>The rollback of a failed write\<close>

text \<open>
  Claim C1. The specification has the buffer equal its content before the write once the
  upload has failed. After a failed upload \<^verbatim>\<open>WriteAt\<close> resets the body and writes \<^verbatim>\<open>buf\<close>
  back, but \<^verbatim>\<open>buf\<close> is the slice \<^verbatim>\<open>Contents\<close> returned, which shares the backing array of
  the body, and a write that fits the capacity has already overwritten that array. For
  a write inside the old content (at an offset from 0 below the length \<open>L\<close>, ending at or
  before \<open>L\<close>) whose upload fails, the call returns 0 and the upload error, the container
  is as it was, and the buffer holds the old content with the bytes written over it in
  place: the attempted write stays in the buffer.
\<close>

theorem WriteAt_rollback_keeps_overwritten_bytes:
  assumes g: "get (root s) f = Some file" and b: "Blob file = Some r" and r: "r < nblobs s"
    and ok: "slice_ok s (Contents s r)"
    and up: "upload_fails s"
    and off: "0 \<le> off" "off < int (buflen (Contents s r))"
    and fit: "nat off + length p \<le> buflen (Contents s r)"
  shows "snd (WriteAt s f p off) = (0, Some ErrUpload) \<and>
         slice_bytes (fst (WriteAt s f p off)) (Contents (fst (WriteAt s f p off)) r) =
           take (nat off) (slice_bytes s (Contents s r)) @ p @
           drop (nat off + length p) (slice_bytes s (Contents s r)) \<and>
         objects (fst (WriteAt s f p off)) = objects s"
proof -
  define s1 where "s1 = fst (Sync s)"
  define buf where "buf = Contents s r"
  define L where "L = buflen buf"
  define l where "l = nat off"
  define n where "n = length p"
  have k: "keeps s s1" unfolding s1_def by (rule Sync_keeps)
  have bl: "blobs s1 r = blobs s r" by (rule keeps_blob [OF k r])
  have ar: "arrays s1 = arrays s" using k by (simp add: keeps_def)
  have fl: "upload_fails s1" "objects s1 = objects s" using k up by (simp_all add: keeps_def)
  from off have Lpos: "0 < L" by (simp add: L_def buf_def)
  from ok Lpos obtain a where a: "bufp buf = Some a" and cap: "L \<le> length (arrays s a)"
    by (cases "bufp buf") (auto simp: slice_ok_def slice_cap_def buf_def L_def)
  define arr where "arr = arrays s a"
  have body1: "body (blobs s1 r) = buf" by (simp add: bl buf_def Contents_def)
  have lL: "l + n \<le> L" "l < L" using fit off by (simp_all add: l_def n_def L_def buf_def)
  \<comment> \<open>the truncation\<close>
  define s2 where "s2 = set_body s1 r (buf\<lparr>buflen := l\<rparr>)"
  have tr: "Buffer_Truncate s1 r off = Inr s2"
    using off body1
    by (auto simp: Buffer_Truncate_def Buffer_Reset_def s2_def l_def L_def buf_def)
  \<comment> \<open>the write, in place\<close>
  define arr3 where "arr3 = take l arr @ p @ drop (l + n) arr"
  define s3 where "s3 = set_body (s2\<lparr>arrays := (arrays s2)(a := arr3)\<rparr>) r (buf\<lparr>buflen := l + n\<rparr>)"
  have w: "Buffer_Write s2 r p = (s3, n)"
    using a cap lL
    by (simp add: Buffer_Write_def Let_def s2_def s3_def set_body_def slice_cap_def ar
        arr_def arr3_def n_def)
  have len3: "length arr3 = length arr" using cap lL by (simp add: arr3_def arr_def n_def)
  \<comment> \<open>the failed upload and the rollback\<close>
  have u3: "upload_fails s3" using fl by (simp add: s3_def s2_def set_body_def)
  define s4 where "s4 = Buffer_Reset s3 r"
  define data where "data = slice_bytes s4 buf"
  have data: "data = take L arr3"
    by (simp add: data_def s4_def Buffer_Reset_def slice_bytes_def a s3_def set_body_def L_def)
  have ldata: "length data = L" using cap len3 by (simp add: data arr_def)
  define s5 where "s5 = fst (Buffer_Write s4 r data)"
  have wu: "WriteAt_upload s3 r buf n = (s5, 0, Some ErrUpload)"
    using u3 by (simp add: WriteAt_upload_def Upload_def s5_def s4_def data_def)
  have b4: "body (blobs s4 r) = buf\<lparr>buflen := 0\<rparr>" "arrays s4 a = arr3" "objects s4 = objects s"
    using fl by (simp_all add: s4_def Buffer_Reset_def s3_def s2_def set_body_def)
  have ok4: "slice_ok s4 (body (blobs s4 r))" unfolding s4_def by (rule Buffer_Reset_ok)
  have by5: "slice_bytes s5 (body (blobs s5 r)) = data"
    unfolding s5_def using Buffer_Write_bytes [OF ok4, of data]
    by (simp add: s4_def Buffer_Reset_bytes)
  have o5: "objects s5 = objects s"
    unfolding s5_def using Buffer_Write_other [of s4 r data] b4 by simp
  have old: "slice_bytes s buf = take L arr"
    by (simp add: slice_bytes_def a L_def arr_def)
  have "data = take l arr @ p @ take (L - (l + n)) (drop (l + n) arr)"
    using cap lL by (simp add: data arr3_def arr_def n_def)
  also have "\<dots> = take l (take L arr) @ p @ drop (l + n) (take L arr)"
    using lL by (simp add: drop_take min_def)
  finally have d: "data = take l (slice_bytes s buf) @ p @ drop (l + n) (slice_bytes s buf)"
    by (simp add: old)
  have "WriteAt s f p off = WriteAt_upload s3 r buf n"
    using WriteAt_after_Sync [OF g b r, of p off] off tr w
    by (simp add: Let_def buf_def [symmetric] s1_def [symmetric] n_def)
  with wu have "WriteAt s f p off = (s5, 0, Some ErrUpload)" by simp
  with by5 o5 d show ?thesis
    by (simp add: Contents_def l_def n_def buf_def)
qed

text \<open>
  The statement at the entry \<^verbatim>\<open>/f\<close> holding \<^verbatim>\<open>hello\<close> (104 101 108 108 111) and
  \<^verbatim>\<open>WriteAt("XY", 0)\<close> (88 89) with an upload that fails: the buffer then holds \<^verbatim>\<open>XYllo\<close>.
\<close>

theorem WriteAt_rollback_keeps_overwritten_bytes_witness:
  "get (root (hello_state\<lparr>upload_fails := True\<rparr>)) [0] = Some (File ''f'' False (Some 0) []) \<and>
   0 < nblobs (hello_state\<lparr>upload_fails := True\<rparr>) \<and>
   slice_ok (hello_state\<lparr>upload_fails := True\<rparr>) (Contents (hello_state\<lparr>upload_fails := True\<rparr>) 0) \<and>
   upload_fails (hello_state\<lparr>upload_fails := True\<rparr>) \<and>
   slice_bytes (hello_state\<lparr>upload_fails := True\<rparr>) (Contents (hello_state\<lparr>upload_fails := True\<rparr>) 0)
     = [104, 101, 108, 108, 111] \<and>
   snd (WriteAt (hello_state\<lparr>upload_fails := True\<rparr>) [0] [88, 89] 0) = (0, Some ErrUpload) \<and>
   slice_bytes (fst (WriteAt (hello_state\<lparr>upload_fails := True\<rparr>) [0] [88, 89] 0))
     (Contents (fst (WriteAt (hello_state\<lparr>upload_fails := True\<rparr>) [0] [88, 89] 0)) 0)
     = [88, 89, 108, 108, 111]"
proof -
  let ?s = "hello_state\<lparr>upload_fails := True\<rparr>"
  have h1: "get (root ?s) [0] = Some (File ''f'' False (Some 0) [])" by code_simp
  have h2: "Blob (File ''f'' False (Some 0) []) = Some 0" by simp
  have h3: "0 < nblobs ?s" by code_simp
  have h4: "slice_ok ?s (Contents ?s 0)" by code_simp
  have h5: "upload_fails ?s" by simp
  have l: "buflen (Contents ?s 0) = 5" by code_simp
  have c: "slice_bytes ?s (Contents ?s 0) = [104, 101, 108, 108, 111]" by code_simp
  have h6: "(0::int) \<le> 0" "0 < int (buflen (Contents ?s 0))" using l by simp_all
  have h7: "nat 0 + length [88, 89 :: byte] \<le> buflen (Contents ?s 0)" using l by simp
  from WriteAt_rollback_keeps_overwritten_bytes [OF h1 h2 h3 h4 h5 h6 h7] h1 h3 h4 h5 c
  show ?thesis by simp
qed

text \<open>
  Once uploads work again the bytes left behind reach the container: after the failed
  \<^verbatim>\<open>WriteAt("XY", 0)\<close> on \<^verbatim>\<open>hello\<close>, \<^verbatim>\<open>WriteAt("!", 5)\<close> (33) stores \<^verbatim>\<open>XYllo!\<close>.
\<close>

lemma WriteAt_after_failed_write_uploads_overwritten_bytes:
  "(let s1 = fst (ReadAt_fs (start_state [(''f'', [104, 101, 108, 108, 111])]) [0] 5 0);
        s2 = s1\<lparr>upload_fails := True\<rparr>;
        w = WriteAt s2 [0] [88, 89] 0;
        s3 = fst w;
        s4 = fst (WriteAt (s3\<lparr>upload_fails := False\<rparr>) [0] [33] 5)
    in slice_bytes s2 (Contents s2 0) = [104, 101, 108, 108, 111] \<and>
       snd w = (0, Some ErrUpload) \<and>
       slice_bytes s3 (Contents s3 0) = [88, 89, 108, 108, 111] \<and>
       objects s3 = [(''f'', [104, 101, 108, 108, 111])] \<and>
       objects s4 = [(''f'', [88, 89, 108, 108, 111, 33])])"
  by code_simp

subsection \<open>Reconciliation\<close>

lemma strings_Split_no_sep: "c \<notin> set n \<Longrightarrow> strings_Split c n = [n]"
  by (induction n) auto

lemma path_Split_flat: "CHR ''/'' \<notin> set n \<Longrightarrow> path_Split (CHR ''/'' # n) = (''/'', n)"
proof -
  assume a: "CHR ''/'' \<notin> set n"
  then have "takeWhile (\<lambda>c. c \<noteq> CHR ''/'') (rev n @ ''/'') = rev n"
    by (subst takeWhile_append2) auto
  then show ?thesis by (simp add: path_Split_def Let_def)
qed

lemma Clean_flat: "flat_name n \<Longrightarrow> Clean (CHR ''/'' # n) = CHR ''/'' # n"
  by (simp add: Clean_def Let_def flat_name_def strings_Split_no_sep Clean_step_def)

lemma first_index_Some:
  "x \<in> set xs \<Longrightarrow> P x \<Longrightarrow> \<exists>i. first_index P xs = Some i \<and> i < length xs \<and> P (xs ! i)"
proof (induction xs)
  case Nil
  then show ?case by simp
next
  case (Cons y ys)
  then show ?case by (cases "P y") auto
qed

lemma Search_flat:
  assumes "flat_name n" "n \<in> set (map name (Children t))"
  shows "\<exists>i. Search t (CHR ''/'' # n) = Inr [i] \<and> i < length (Children t) \<and>
             name (Children t ! i) = n"
proof -
  from assms(2) obtain c where "c \<in> set (Children t)" "name c = n" by auto
  from first_index_Some [of c "Children t" "\<lambda>child. name child = n", OF this]
  obtain i where "first_index (\<lambda>child. name child = n) (Children t) = Some i"
    "i < length (Children t)" "name (Children t ! i) = n" by blast
  moreover from assms(1) have "tl (strings_Split CHR ''/'' (Clean (CHR ''/'' # n))) = [n]"
    by (simp add: Clean_flat flat_name_def strings_Split_no_sep)
  ultimately show ?thesis by (simp add: Search_def Let_def)
qed

lemma Insert_flat:
  assumes "flat_name n" "n \<notin> set (map name (Children (root s)))"
  shows "Insert s (CHR ''/'' # n) False =
     (s\<lparr>blobs := (blobs s)(nblobs s := \<lparr>bname = n, body = \<lparr>bufp = None, buflen = 0\<rparr>\<rparr>),
        nblobs := Suc (nblobs s),
        root := append_child (File n False (Some (nblobs s)) []) (root s)\<rparr>,
      Inr [length (Children (root s))])"
  using assms
  by (simp add: Insert_def path_Split_flat flat_name_def NewChild_def NewBlob_def)

lemma Sync_loop_flat:
  assumes "\<forall>n\<in>set diff. flat_name n" "distinct diff"
    "set diff \<inter> set (map name (Children (root s))) = {}"
  shows "snd (Sync_loop s diff) = None \<and>
         Children (root (fst (Sync_loop s diff))) =
           Children (root s) @ new_entries diff (nblobs s)"
  using assms
proof (induction diff arbitrary: s)
  case Nil
  then show ?case by simp
next
  case (Cons n diff)
  define s1 where "s1 = s\<lparr>blobs := (blobs s)(nblobs s := \<lparr>bname = n, body = \<lparr>bufp = None, buflen = 0\<rparr>\<rparr>),
        nblobs := Suc (nblobs s),
        root := append_child (File n False (Some (nblobs s)) []) (root s)\<rparr>"
  from Cons.prems have fl: "flat_name n" and nin: "n \<notin> set (map name (Children (root s)))"
    by auto
  have ins: "Insert s (CHR ''/'' # n) False = (s1, Inr [length (Children (root s))])"
    unfolding s1_def by (rule Insert_flat [OF fl nin])
  have c1: "Children (root s1) = Children (root s) @ [File n False (Some (nblobs s)) []]"
    and n1: "nblobs s1 = Suc (nblobs s)"
    by (simp_all add: s1_def append_child_def)
  from Cons.prems have p1: "\<forall>m\<in>set diff. flat_name m" "distinct diff"
    "set diff \<inter> set (map name (Children (root s1))) = {}"
    by (auto simp: c1)
  from Cons.IH [OF p1] ins show ?case
    by (simp add: c1 n1)
qed

lemma new_entries_names: "map name (new_entries ns k) = ns"
  by (induction ns arbitrary: k) auto

lemma distinct_missingLocally: "distinct remotes \<Longrightarrow> distinct (missingLocally locals remotes)"
  by (simp add: missingLocally_def)

text \<open>
  Claim C4, as amended. When the listing succeeds and the names listed are distinct
  (as the names of the objects of a container are) and each is one path element,
  \<^verbatim>\<open>Sync\<close> returns no error and appends to the children of the root exactly the listed
  names that no child of the root bears, in the order of the listing, each as a regular
  entry with a blob of its own; afterwards \<^verbatim>\<open>Search\<close> of \<^verbatim>\<open>/\<close> followed by a listed name
  returns a child of the root that bears the name.
\<close>

theorem Sync_inserts_missing_flat_names:
  assumes lf: "\<not> list_fails s" and dist: "distinct (map fst (objects s))"
    and flat: "\<forall>n\<in>set (map fst (objects s)). flat_name n"
  shows "snd (Sync s) = None \<and>
         Children (root (fst (Sync s))) =
           Children (root s) @
           new_entries (missingLocally (map name (Children (root s))) (map fst (objects s)))
             (nblobs s) \<and>
         (\<forall>n\<in>set (map fst (objects s)).
            \<exists>i. Search (root (fst (Sync s))) (CHR ''/'' # n) = Inr [i] \<and>
                i < length (Children (root (fst (Sync s)))) \<and>
                name (Children (root (fst (Sync s))) ! i) = n)"
proof -
  define diff where "diff = missingLocally (map name (Children (root s))) (map fst (objects s))"
  have sy: "Sync s = Sync_loop s diff"
    using lf by (simp add: Sync_def ListBlobs_def diff_def)
  have d1: "\<forall>n\<in>set diff. flat_name n" using flat by (auto simp: diff_def missingLocally_def)
  have d2: "distinct diff" unfolding diff_def by (rule distinct_missingLocally [OF dist])
  have d3: "set diff \<inter> set (map name (Children (root s))) = {}"
    by (auto simp: diff_def missingLocally_def)
  from Sync_loop_flat [OF d1 d2 d3] have res: "snd (Sync s) = None"
    "Children (root (fst (Sync s))) = Children (root s) @ new_entries diff (nblobs s)"
    by (simp_all add: sy)
  have "\<exists>i. Search (root (fst (Sync s))) (CHR ''/'' # n) = Inr [i] \<and>
            i < length (Children (root (fst (Sync s)))) \<and>
            name (Children (root (fst (Sync s))) ! i) = n"
    if n: "n \<in> set (map fst (objects s))" for n
  proof -
    from n flat have fn: "flat_name n" by blast
    have "n \<in> set (map name (Children (root s))) \<or> n \<in> set diff"
      using n by (auto simp: diff_def missingLocally_def)
    then have "n \<in> set (map name (Children (root (fst (Sync s)))))"
      using new_entries_names [of diff "nblobs s"] by (auto simp: res(2) simp del: set_map)
    from Search_flat [OF fn this] show ?thesis .
  qed
  with res show ?thesis unfolding diff_def by blast
qed

text \<open>
  The statement at a tree that holds \<^verbatim>\<open>a\<close> while the container lists \<^verbatim>\<open>a\<close> and \<^verbatim>\<open>b\<close>: \<^verbatim>\<open>b\<close> is
  appended, and both are found.
\<close>

theorem Sync_inserts_missing_flat_names_witness:
  "(let s = (fst (Sync (start_state [(''a'', [])])))\<lparr>objects := [(''a'', []), (''b'', [1])]\<rparr>
    in \<not> list_fails s \<and> distinct (map fst (objects s)) \<and> flat_name ''a'' \<and> flat_name ''b'' \<and>
       Children (root s) = [File ''a'' False (Some 0) []] \<and>
       snd (Sync s) = None \<and>
       Children (root (fst (Sync s))) =
         [File ''a'' False (Some 0) [], File ''b'' False (Some 1) []] \<and>
       (\<exists>i. Search (root (fst (Sync s))) ''/a'' = Inr [i] \<and>
            i < length (Children (root (fst (Sync s)))) \<and>
            name (Children (root (fst (Sync s))) ! i) = ''a'') \<and>
       (\<exists>i. Search (root (fst (Sync s))) ''/b'' = Inr [i] \<and>
            i < length (Children (root (fst (Sync s)))) \<and>
            name (Children (root (fst (Sync s))) ! i) = ''b''))"
proof -
  define s where "s = (fst (Sync (start_state [(''a'', [])])))\<lparr>objects := [(''a'', []), (''b'', [1])]\<rparr>"
  have h1: "\<not> list_fails s" unfolding s_def by code_simp
  have o: "map fst (objects s) = [''a'', ''b'']" unfolding s_def by code_simp
  have h2: "distinct (map fst (objects s))" unfolding o by simp
  have f: "flat_name ''a''" "flat_name ''b''" by (simp_all add: flat_name_def)
  then have h3: "\<forall>n\<in>set (map fst (objects s)). flat_name n" unfolding o by simp
  have c: "Children (root s) = [File ''a'' False (Some 0) []]" unfolding s_def by code_simp
  have n: "nblobs s = 1" unfolding s_def by code_simp
  note T = Sync_inserts_missing_flat_names [OF h1 h2 h3]
  from T have 1: "snd (Sync s) = None" by blast
  from T have 2: "Children (root (fst (Sync s))) =
         [File ''a'' False (Some 0) [], File ''b'' False (Some 1) []]"
    by (simp add: o c n missingLocally_def)
  from T have 3: "\<exists>i. Search (root (fst (Sync s))) (CHR ''/'' # n) = Inr [i] \<and>
                i < length (Children (root (fst (Sync s)))) \<and>
                name (Children (root (fst (Sync s))) ! i) = n"
    if "n \<in> set (map fst (objects s))" for n using that by blast
  from 3 [of "''a''"] 3 [of "''b''"] 1 2 h1 h2 f c show ?thesis
    unfolding Let_def s_def [symmetric] o by simp
qed

text \<open>
  Claim C4 as the specification states it covers every listing. A listed name with a
  slash is split by \<^verbatim>\<open>Insert\<close>: with \<^verbatim>\<open>a\<close> and \<^verbatim>\<open>a/b\<close> listed, \<^verbatim>\<open>b\<close> is put under the entry
  \<^verbatim>\<open>a\<close>, not under the root, and \<^verbatim>\<open>Search("/a/b")\<close> fails; with \<^verbatim>\<open>x/y\<close> alone listed,
  \<^verbatim>\<open>Sync\<close> fails and inserts nothing. A listed name \<^verbatim>\<open>.\<close> is inserted, and
  \<^verbatim>\<open>Search("/.")\<close> fails.
\<close>

theorem Sync_nested_or_dot_name:
  "(let s = fst (Sync (start_state [(''a'', []), (''a/b'', [])]))
    in root s = File ''/'' True None [File ''a'' False (Some 0) [File ''b'' False (Some 1) []]] \<and>
       Search (root s) ''/a/b'' = Inl ErrNotFound) \<and>
   (let s = start_state [(''x/y'', [])]
    in snd (Sync s) = Some (ErrInsertRemote (ErrNoParent ErrNotFound)) \<and>
       root (fst (Sync s)) = File ''/'' True None [] \<and>
       Search (root (fst (Sync s))) ''/x/y'' = Inl ErrNotFound) \<and>
   (let s = fst (Sync (start_state [(''.'', [])]))
    in root s = File ''/'' True None [File ''.'' False (Some 0) []] \<and>
       Search (root s) ''/.'' = Inl ErrNotFound)"
  by code_simp

subsection \<open>A failed reconciliation\<close>

lemma Sync_list_fails: "list_fails s \<Longrightarrow> Sync s = (s, Some ErrListBlobs)"
  by (simp add: Sync_def ListBlobs_def)

lemma WriteAt_upload_err:
  "snd (snd (WriteAt_upload s r buf n)) \<noteq> Some ErrListBlobs"
  by (simp add: WriteAt_upload_def Upload_def)

lemma Buffer_Truncate_err: "Buffer_Truncate s r n = Inl e \<Longrightarrow> e = PanicTruncate"
  by (simp add: Buffer_Truncate_def split: if_splits)

lemma WriteAt_never_list_error: "snd (snd (WriteAt s f p off)) \<noteq> Some ErrListBlobs"
proof (cases "Option.bind (get (root (fst (Sync s))) f) Blob")
  case None
  then show ?thesis by (simp add: WriteAt_def Let_def)
next
  case (Some r)
  let ?s1 = "fst (Sync s)"
  show ?thesis
  proof (cases "off > int (buflen (Contents ?s1 r))")
    case True
    with Some show ?thesis by (simp add: WriteAt_def Let_def)
  next
    case False
    show ?thesis
    proof (cases "if off < int (buflen (Contents ?s1 r)) then Buffer_Truncate ?s1 r off else Inr ?s1")
      case (Inl e)
      then have "e = PanicTruncate" by (auto split: if_splits dest: Buffer_Truncate_err)
      with Some False Inl show ?thesis by (simp add: WriteAt_def Let_def del: if_split)
    next
      case (Inr s2)
      with Some False show ?thesis
        by (simp add: WriteAt_def Let_def case_prod_beta WriteAt_upload_err del: if_split)
    qed
  qed
qed

lemma Size_fs_never_list_error: "snd (Size_fs s f) \<noteq> Inl ErrListBlobs"
  by (cases "dir f"; cases "Blob f") (simp_all add: Size_fs_def IsDir_def Size_file_def)

lemma Size_part000_never_list_error: "snd (Size_part000 s f) \<noteq> Inl ErrListBlobs"
  by (cases "dir f"; cases "Blob f") (simp_all add: Size_part000_def IsDir_def Size_file_def)

lemma Download_err: "Download s r = (s', Some e) \<Longrightarrow> e = PanicNilDeref"
  by (simp add: Download_def split: option.splits if_splits)

lemma ReadAt_copy_err: "snd (snd (snd (ReadAt_copy s r plen off))) \<noteq> Some ErrListBlobs"
  by (simp add: ReadAt_copy_def Let_def)

lemma ReadAt_with_never_list_error:
  assumes sz: "\<And>s f. snd (Size s f) \<noteq> Inl ErrListBlobs"
  shows "snd (snd (snd (ReadAt_with Size s f plen off))) \<noteq> Some ErrListBlobs"
proof (cases "get (root (fst (Sync s))) f")
  case None
  then show ?thesis by (simp add: ReadAt_with_def Let_def)
next
  case (Some f1)
  note f1 = Some
  show ?thesis
  proof (cases "Blob f1")
    case None
    with f1 show ?thesis by (simp add: ReadAt_with_def Let_def)
  next
    case (Some r)
    obtain s2 de where d: "Download (fst (Sync s)) r = (s2, de)" by (cases "Download (fst (Sync s)) r")
    show ?thesis
    proof (cases de)
      case (Some e)
      with d have "e = PanicNilDeref" by (auto dest: Download_err)
      with f1 \<open>Blob f1 = Some r\<close> d Some show ?thesis by (simp add: ReadAt_with_def Let_def)
    next
      case None
      obtain s3 res where z: "Size s2 f1 = (s3, res)" by (cases "Size s2 f1")
      show ?thesis
      proof (cases res)
        case (Inl e)
        with sz [of s2 f1] z have "e \<noteq> ErrListBlobs" by auto
        with f1 \<open>Blob f1 = Some r\<close> d None z Inl show ?thesis
          by (simp add: ReadAt_with_def Let_def)
      next
        case (Inr n)
        with f1 \<open>Blob f1 = Some r\<close> d None z show ?thesis
          by (simp add: ReadAt_with_def Let_def ReadAt_copy_err)
      qed
    qed
  qed
qed

lemma Readdir_fs_never_list_error: "snd (snd (Readdir_fs s f n)) \<noteq> Some ErrListBlobs"
proof (cases "get (root (fst (Sync s))) f")
  case None
  then show ?thesis by (simp add: Readdir_fs_def Let_def)
next
  case (Some d)
  then show ?thesis
    by (simp add: Readdir_fs_def Let_def case_prod_beta)
qed

text \<open>
  Claim C5, as amended. When the listing fails, \<^verbatim>\<open>Sync\<close> returns the listing error and
  leaves the state as it is; the operation that called it drops the error and goes on
  against the tree as it stands: \<^verbatim>\<open>Stat\<close> and \<^verbatim>\<open>IsDir\<close> return their normal result,
  and whatever \<^verbatim>\<open>Size\<close>, \<^verbatim>\<open>WriteAt\<close>, \<^verbatim>\<open>ReadAt\<close> and \<^verbatim>\<open>Readdir\<close> return is not the
  listing error.
\<close>

theorem Sync_error_is_dropped:
  assumes "list_fails s"
  shows "Sync s = (s, Some ErrListBlobs) \<and>
         Stat s f = (s, f) \<and> IsDir s f = (s, dir f) \<and>
         fst (Size_fs s f) = s \<and> snd (Size_fs s f) \<noteq> Inl ErrListBlobs \<and>
         fst (Size_part000 s f) = s \<and> snd (Size_part000 s f) \<noteq> Inl ErrListBlobs \<and>
         snd (snd (WriteAt s p bs off)) \<noteq> Some ErrListBlobs \<and>
         snd (snd (snd (ReadAt_fs s p plen off))) \<noteq> Some ErrListBlobs \<and>
         snd (snd (snd (ReadAt_part000 s p plen off))) \<noteq> Some ErrListBlobs \<and>
         snd (snd (Readdir_fs s p n)) \<noteq> Some ErrListBlobs"
proof -
  have sy: "Sync s = (s, Some ErrListBlobs)" by (rule Sync_list_fails [OF assms])
  then have fs: "fst (Size_fs s f) = s" "fst (Size_part000 s f) = s"
    by (simp_all add: Size_fs_def Size_part000_def IsDir_def split: bool.splits)
  have st: "Stat s f = (s, f)" "IsDir s f = (s, dir f)"
    using sy by (simp_all add: Stat_def IsDir_def)
  have r1: "snd (snd (snd (ReadAt_fs s p plen off))) \<noteq> Some ErrListBlobs"
    unfolding ReadAt_fs_def
    by (rule ReadAt_with_never_list_error [of Size_fs, OF Size_fs_never_list_error])
  have r2: "snd (snd (snd (ReadAt_part000 s p plen off))) \<noteq> Some ErrListBlobs"
    unfolding ReadAt_part000_def
    by (rule ReadAt_with_never_list_error [of Size_part000, OF Size_part000_never_list_error])
  from sy fs st r1 r2 WriteAt_never_list_error [of s p bs off]
    Readdir_fs_never_list_error [of s p n] Size_fs_never_list_error [of s f]
    Size_part000_never_list_error [of s f]
  show ?thesis by blast
qed

text \<open>The statement at the entry \<^verbatim>\<open>/f\<close> holding \<^verbatim>\<open>hello\<close>, with a listing that fails.\<close>

theorem Sync_error_is_dropped_witness:
  "list_fails (hello_state\<lparr>list_fails := True\<rparr>) \<and>
   Sync (hello_state\<lparr>list_fails := True\<rparr>) = (hello_state\<lparr>list_fails := True\<rparr>, Some ErrListBlobs) \<and>
   Stat (hello_state\<lparr>list_fails := True\<rparr>) (File ''f'' False (Some 0) [])
     = (hello_state\<lparr>list_fails := True\<rparr>, File ''f'' False (Some 0) []) \<and>
   snd (snd (WriteAt (hello_state\<lparr>list_fails := True\<rparr>) [0] [88] 0)) \<noteq> Some ErrListBlobs \<and>
   snd (snd (snd (ReadAt_fs (hello_state\<lparr>list_fails := True\<rparr>) [0] 5 0))) \<noteq> Some ErrListBlobs"
proof -
  have h: "list_fails (hello_state\<lparr>list_fails := True\<rparr>)" by simp
  from Sync_error_is_dropped [OF h, of "File ''f'' False (Some 0) []" "[0]" "[88]" 0 5 0]
    h show ?thesis by blast
qed

text \<open>
  Claim C5 as the specification states it has the operation aborted with the listing
  error. With the entry \<^verbatim>\<open>/f\<close> holding \<^verbatim>\<open>hello\<close> and a listing that fails, \<^verbatim>\<open>Sync\<close> returns
  the error, and \<^verbatim>\<open>Stat\<close>, \<^verbatim>\<open>Size\<close>, \<^verbatim>\<open>WriteAt\<close>, \<^verbatim>\<open>ReadAt\<close> and \<^verbatim>\<open>Readdir\<close> all return
  their normal results.
\<close>

theorem operations_proceed_after_failed_listing:
  "(let s = hello_state\<lparr>list_fails := True\<rparr>
    in snd (Sync s) = Some ErrListBlobs \<and>
       snd (Stat s (File ''f'' False (Some 0) [])) = File ''f'' False (Some 0) [] \<and>
       snd (Size_fs s (File ''f'' False (Some 0) [])) = Inr 5 \<and>
       snd (WriteAt s [0] [88] 0) = (1, None) \<and>
       snd (ReadAt_fs s [0] 5 0) = (5, [104, 101, 108, 108, 111], None) \<and>
       snd (Readdir_fs s [] 0) = ([File ''f'' False (Some 0) []], Some EOF))"
  by code_simp

subsection \<open>Entries and their blobs\<close>

lemma bound_simp: "bound f = (Blob f \<noteq> None \<and> list_all bound (Children f))"
  by (cases f) simp

lemma list_all_update: "list_all P xs \<Longrightarrow> P x \<Longrightarrow> list_all P (xs[i := x])"
  by (induction xs arbitrary: i) (auto split: nat.splits)

lemma bound_upd_append:
  "bound c \<Longrightarrow> bound t \<Longrightarrow> bound (upd (append_child c) t q)"
proof (induction q arbitrary: t)
  case Nil
  then show ?case by (simp add: append_child_def bound_simp [of t])
next
  case (Cons i q)
  from Cons.prems(2) have bt: "Blob t \<noteq> None" "list_all bound (Children t)"
    by (simp_all add: bound_simp [of t])
  show ?case
  proof (cases "i < length (Children t)")
    case True
    with bt(2) have "bound (Children t ! i)" by (simp add: list_all_length)
    from Cons.IH [OF Cons.prems(1) this] have "bound (upd (append_child c) (Children t ! i) q)" .
    with bt show ?thesis by (simp add: list_all_update)
  next
    case False
    with Cons.prems(2) show ?thesis by (cases t) (simp add: list_update_beyond)
  qed
qed

lemma children_upd_append:
  assumes a: "list_all bound (Children t)" "bound c"
  shows "list_all bound (Children (upd (append_child c) t q)) \<and>
         Blob (upd (append_child c) t q) = Blob t"
proof (cases q)
  case Nil
  with a show ?thesis by (simp add: append_child_def)
next
  case (Cons i q')
  show ?thesis
  proof (cases "i < length (Children t)")
    case True
    with a(1) have "bound (Children t ! i)" by (simp add: list_all_length)
    from bound_upd_append [OF a(2) this] have "bound (upd (append_child c) (Children t ! i) q')" .
    with a Cons show ?thesis by (simp add: list_all_update)
  next
    case False
    with a Cons show ?thesis by (simp add: list_update_beyond)
  qed
qed

lemma Insert_cases:
  "fst (Insert s full isDir) = s \<or>
   (\<exists>t tf nm. fst (Insert s full isDir) = fst (NewChild s t tf nm isDir))"
  unfolding Insert_def
  by (auto split: prod.splits sum.splits option.splits) (metis fst_conv)+

lemma Insert_inv:
  assumes "Blob (root s) = None" "list_all bound (Children (root s))"
  shows "Blob (root (fst (Insert s full isDir))) = None \<and>
         list_all bound (Children (root (fst (Insert s full isDir))))"
proof -
  have nc: "Blob (root (fst (NewChild s t tf nm isDir))) = None \<and>
            list_all bound (Children (root (fst (NewChild s t tf nm isDir))))" for t tf nm
    using children_upd_append [OF assms(2), of "File nm isDir (Some (nblobs s)) []" t] assms(1)
    by (simp add: NewChild_def NewBlob_def)
  from Insert_cases [of s full isDir] show ?thesis
  proof
    assume "fst (Insert s full isDir) = s"
    with assms show ?thesis by simp
  next
    assume "\<exists>t tf nm. fst (Insert s full isDir) = fst (NewChild s t tf nm isDir)"
    then obtain t tf nm where "fst (Insert s full isDir) = fst (NewChild s t tf nm isDir)"
      by blast
    with nc [of t tf nm] show ?thesis by simp
  qed
qed

lemma Sync_loop_inv:
  "Blob (root s) = None \<Longrightarrow> list_all bound (Children (root s)) \<Longrightarrow>
   Blob (root (fst (Sync_loop s diff))) = None \<and>
   list_all bound (Children (root (fst (Sync_loop s diff))))"
proof (induction diff arbitrary: s)
  case Nil
  then show ?case by simp
next
  case (Cons nm diff)
  obtain s' res where i: "Insert s (CHR ''/'' # nm) False = (s', res)"
    by (cases "Insert s (CHR ''/'' # nm) False")
  from Insert_inv [OF Cons.prems, of "CHR ''/'' # nm" False] i
  have inv: "Blob (root s') = None" "list_all bound (Children (root s'))" by simp_all
  show ?case
  proof (cases res)
    case (Inl e)
    with i inv show ?thesis by simp
  next
    case (Inr f)
    with i Cons.IH [OF inv] show ?thesis by simp
  qed
qed

lemma Sync_inv:
  "Blob (root s) = None \<Longrightarrow> list_all bound (Children (root s)) \<Longrightarrow>
   Blob (root (fst (Sync s))) = None \<and> list_all bound (Children (root (fst (Sync s))))"
  by (cases "ListBlobs s") (simp_all add: Sync_def Sync_loop_inv)

lemma reachable_inv:
  "reachable s \<Longrightarrow> Blob (root s) = None \<and> list_all bound (Children (root s))"
proof (induction rule: reachable.induct)
  case (start s)
  then show ?case by (simp add: NewTree_def)
next
  case (insert s full isDir)
  then show ?case using Insert_inv by blast
next
  case (sync s)
  then show ?case using Sync_inv by blast
next
  case (other s s')
  then show ?case by simp
qed

lemma bound_get: "bound t \<Longrightarrow> get t p = Some f \<Longrightarrow> bound f"
proof (induction p arbitrary: t)
  case Nil
  then show ?case by simp
next
  case (Cons i p)
  from Cons.prems(2) have i: "i < length (Children t)" "get (Children t ! i) p = Some f"
    by (simp_all split: if_splits)
  from Cons.prems(1) i(1) have "bound (Children t ! i)"
    by (simp add: bound_simp [of t] list_all_length)
  from Cons.IH [OF this i(2)] show ?case .
qed

text \<open>
  Claim C8, as amended. In every state the server reaches, the root has no blob and
  every other entry of the tree, directory or not, has one: \<^verbatim>\<open>NewChild\<close> gives each
  entry it makes a blob, whatever \<^verbatim>\<open>isDir\<close> is.
\<close>

theorem every_entry_but_the_root_has_a_blob:
  assumes "reachable s"
  shows "Blob (root s) = None \<and>
         (\<forall>p f. p \<noteq> [] \<and> get (root s) p = Some f \<longrightarrow> (\<exists>b. Blob f = Some b))"
proof -
  from reachable_inv [OF assms] have r: "Blob (root s) = None"
    and c: "list_all bound (Children (root s))" by simp_all
  have "\<exists>b. Blob f = Some b" if "p \<noteq> []" "get (root s) p = Some f" for p f
  proof -
    from that obtain i q where p: "p = i # q" by (cases p) auto
    with that(2) have i: "i < length (Children (root s))"
      "get (Children (root s) ! i) q = Some f" by (simp_all split: if_splits)
    from c i(1) have "bound (Children (root s) ! i)" by (simp add: list_all_length)
    from bound_get [OF this i(2)] show ?thesis by (simp add: bound_simp [of f])
  qed
  with r show ?thesis by blast
qed

text \<open>
  The statement after \<^verbatim>\<open>Insert("/d", true)\<close> and a reconciliation that adds \<^verbatim>\<open>/f\<close>: the
  directory and the regular entry both have a blob.
\<close>

theorem every_entry_but_the_root_has_a_blob_witness:
  "reachable (fst (Sync (fst (Insert (start_state [(''f'', [])]) ''/d'' True)))) \<and>
   Blob (root (fst (Sync (fst (Insert (start_state [(''f'', [])]) ''/d'' True))))) = None \<and>
   get (root (fst (Sync (fst (Insert (start_state [(''f'', [])]) ''/d'' True))))) [0]
     = Some (File ''d'' True (Some 0) []) \<and>
   get (root (fst (Sync (fst (Insert (start_state [(''f'', [])]) ''/d'' True))))) [1]
     = Some (File ''f'' False (Some 1) []) \<and>
   (\<exists>b. Blob (File ''d'' True (Some 0) []) = Some b) \<and>
   (\<exists>b. Blob (File ''f'' False (Some 1) []) = Some b)"
proof -
  let ?s = "fst (Sync (fst (Insert (start_state [(''f'', [])]) ''/d'' True)))"
  have "root (start_state [(''f'', [])]) = NewTree" by (simp add: start_state_def)
  then have h: "reachable ?s"
    by (intro reachable.sync reachable.insert reachable.start)
  have g0: "get (root ?s) [0] = Some (File ''d'' True (Some 0) [])" by code_simp
  have g1: "get (root ?s) [1] = Some (File ''f'' False (Some 1) [])" by code_simp
  note T = every_entry_but_the_root_has_a_blob [OF h]
  from T have 1: "Blob (root ?s) = None" by blast
  from T g0 have 2: "\<exists>b. Blob (File ''d'' True (Some 0) []) = Some b" by blast
  from T g1 have 3: "\<exists>b. Blob (File ''f'' False (Some 1) []) = Some b" by blast
  from h 1 g0 g1 2 3 show ?thesis by blast
qed

text \<open>
  Claim C8 as the specification states it gives a directory no content binding. The
  entry that \<^verbatim>\<open>Insert("/d", true)\<close> makes is a directory and has the blob at address 0,
  made by \<^verbatim>\<open>NewBlob\<close> for the name \<^verbatim>\<open>d\<close>.
\<close>

theorem directory_entry_has_a_blob:
  "(let s = fst (Insert (start_state []) ''/d'' True)
    in get (root s) [0] = Some (File ''d'' True (Some 0) []) \<and>
       dir (File ''d'' True (Some 0) []) \<and>
       Blob (File ''d'' True (Some 0) []) = Some 0 \<and>
       bname (blobs s 0) = ''d'')"
  by code_simp

subsection \<open>Paged listing in \<^verbatim>\<open>src/fs.go\<close>\<close>

lemma Readdir_loop_closed:
  "i \<le> length cs \<Longrightarrow>
   Readdir_loop cs n i info = (max i (min n (length cs)), info @ drop i (take n cs))"
proof (induction cs n i info rule: Readdir_loop.induct)
  case (1 cs n i info)
  show ?case
  proof (cases "i < n \<and> i < length cs")
    case True
    then have "Suc i \<le> length cs" by simp
    from "1.IH" [OF True this] True show ?thesis
      by (subst Readdir_loop.simps) (simp add: Cons_nth_drop_Suc [symmetric] min_def max_def)
  next
    case False
    then show ?thesis
      by (subst Readdir_loop.simps) (auto simp: min_def max_def)
  qed
qed

lemma Readdir_fs_page:
  assumes g: "get (root (fst (Sync s))) d = Some df"
    and o: "ReaddirOffset s < length (Children df)"
  shows "Readdir_fs s d n =
     (let m = (if n \<le> 0 then length (Children df) else nat n);
          i = max (ReaddirOffset s) (min m (length (Children df)))
      in ((fst (Sync s))\<lparr>ReaddirOffset := i\<rparr>,
          drop (ReaddirOffset s) (take m (Children df)),
          if i \<ge> length (Children df) then Some EOF else None))"
proof -
  have k: "keeps s (fst (Sync s))" by (rule Sync_keeps)
  then have ro: "ReaddirOffset (fst (Sync s)) = ReaddirOffset s" by (simp add: keeps_def)
  from o have ne: "length (Children df) \<noteq> 0" "\<not> length (Children df) \<le> ReaddirOffset s"
    and le: "ReaddirOffset s \<le> length (Children df)" by auto
  show ?thesis
    using g ne by (simp add: Readdir_fs_def Let_def ro Readdir_loop_closed [OF le])
qed




lemma keeps_get_children:
  "keeps s s' \<Longrightarrow> get (root s) p = Some f \<Longrightarrow>
     \<exists>f'. get (root s') p = Some f' \<and> length (Children f) \<le> length (Children f')"
  unfolding keeps_def same_node_def by blast

lemma Readdir_fs_stall_step:
  assumes g: "get (root s) d = Some df"
    and n: "0 < n" "nat n \<le> ReaddirOffset s"
    and o: "ReaddirOffset s < length (Children df)"
  shows "snd (Readdir_fs s d n) = ([], None) \<and>
         ReaddirOffset (fst (Readdir_fs s d n)) = ReaddirOffset s \<and>
         (\<exists>df'. get (root (fst (Readdir_fs s d n))) d = Some df' \<and>
                length (Children df) \<le> length (Children df'))"
proof -
  from keeps_get_children [OF Sync_keeps g] obtain df1 where
    g1: "get (root (fst (Sync s))) d = Some df1"
    and len: "length (Children df) \<le> length (Children df1)" by blast
  from o len have o1: "ReaddirOffset s < length (Children df1)" by simp
  from n o1 g1 len show ?thesis
    by (simp add: Readdir_fs_page [OF g1 o1] Let_def max_def min_def)
qed

text \<open>
  Claim C3. The specification has the chained page calls yield every child once and end
  with the done flag. In \<^verbatim>\<open>Readdir\<close> of \<^verbatim>\<open>src/fs.go\<close> the loop bound \<^verbatim>\<open>i < n\<close> compares the
  index with the page size, not with the offset plus the page size: once the offset
  has reached a positive page size \<open>n\<close> while children remain, every further page call,
  however many there are, returns no entry and no \<^verbatim>\<open>io.EOF\<close>; the remaining children are
  never yielded and the calls never end.
\<close>

theorem Readdir_fs_stalls_after_first_page:
  assumes g: "get (root s) d = Some df"
    and n: "0 < n" "nat n \<le> ReaddirOffset s"
    and o: "ReaddirOffset s < length (Children df)"
  shows "Readdir_fs_calls k s d n = replicate k ([], None)"
  using g n(2) o
proof (induction k arbitrary: s df)
  case 0
  show ?case by simp
next
  case (Suc k)
  from Readdir_fs_stall_step [OF Suc.prems(1) n(1) Suc.prems(2) Suc.prems(3)]
  obtain df' where r: "snd (Readdir_fs s d n) = ([], None)"
    and o': "ReaddirOffset (fst (Readdir_fs s d n)) = ReaddirOffset s"
    and g': "get (root (fst (Readdir_fs s d n))) d = Some df'"
    and len: "length (Children df) \<le> length (Children df')" by blast
  from Suc.prems(2) o' have n': "nat n \<le> ReaddirOffset (fst (Readdir_fs s d n))" by simp
  from Suc.prems(3) o' len have o'': "ReaddirOffset (fst (Readdir_fs s d n)) < length (Children df')"
    by simp
  from Suc.IH [OF g' n' o''] r show ?case by simp
qed

text \<open>
  The statement at a root with the children \<^verbatim>\<open>a\<close> and \<^verbatim>\<open>b\<close> and the page size 1: the first
  call yields \<^verbatim>\<open>a\<close> and leaves the offset 1; the next three calls yield nothing and are
  not done.
\<close>

theorem Readdir_fs_stalls_after_first_page_witness:
  "snd (Readdir_fs (start_state [(''a'', []), (''b'', [])]) [] 1)
     = ([File ''a'' False (Some 0) []], None) \<and>
   get (root (fst (Readdir_fs (start_state [(''a'', []), (''b'', [])]) [] 1))) []
     = Some (File ''/'' True None [File ''a'' False (Some 0) [], File ''b'' False (Some 1) []]) \<and>
   ReaddirOffset (fst (Readdir_fs (start_state [(''a'', []), (''b'', [])]) [] 1)) = 1 \<and>
   Readdir_fs_calls 3 (fst (Readdir_fs (start_state [(''a'', []), (''b'', [])]) [] 1)) [] 1
     = [([], None), ([], None), ([], None)]"
proof -
  let ?s = "fst (Readdir_fs (start_state [(''a'', []), (''b'', [])]) [] 1)"
  let ?r = "File ''/'' True None [File ''a'' False (Some 0) [], File ''b'' False (Some 1) []]"
  have p1: "snd (Readdir_fs (start_state [(''a'', []), (''b'', [])]) [] 1)
              = ([File ''a'' False (Some 0) []], None)" by code_simp
  have g: "get (root ?s) [] = Some ?r" by code_simp
  have o1: "ReaddirOffset ?s = 1" by code_simp
  have n: "(0::int) < 1" "nat 1 \<le> ReaddirOffset ?s" using o1 by simp_all
  have o: "ReaddirOffset ?s < length (Children ?r)" using o1 by simp
  from Readdir_fs_stalls_after_first_page [OF g n o, of 3] p1 g o1 show ?thesis
    by (simp add: numeral_3_eq_3)
qed

subsection \<open>Size\<close>

text \<open>
  Claim C9, as amended. For a directory \<^verbatim>\<open>Size\<close> of \<^verbatim>\<open>src/fs.go\<close> returns 0 and \<^verbatim>\<open>Size\<close> of
  \<^verbatim>\<open>src/unnamed/part_000\<close> returns the number of children of the \<^verbatim>\<open>File\<close> value it is
  called on; for a regular entry both return the length of the buffer of its blob.
\<close>

theorem Size_by_revision:
  "(dir f \<longrightarrow>
      snd (Size_fs s f) = Inr 0 \<and> snd (Size_part000 s f) = Inr (int (length (Children f)))) \<and>
   (\<not> dir f \<and> Blob f = Some r \<and> r < nblobs s \<longrightarrow>
      snd (Size_fs s f) = Inr (int (buflen (Contents s r))) \<and>
      snd (Size_part000 s f) = Inr (int (buflen (Contents s r))))"
proof (intro conjI impI)
  assume "dir f"
  then show "snd (Size_fs s f) = Inr 0"
    and "snd (Size_part000 s f) = Inr (int (length (Children f)))"
    by (simp_all add: Size_fs_def Size_part000_def IsDir_def)
next
  assume a: "\<not> dir f \<and> Blob f = Some r \<and> r < nblobs s"
  have k: "keeps s (fst (Sync (fst (Sync s))))"
    by (rule keeps_trans [OF Sync_keeps Sync_keeps])
  from a keeps_blob [OF k] have "Contents (fst (Sync (fst (Sync s)))) r = Contents s r"
    by (simp add: Contents_def)
  with a show "snd (Size_fs s f) = Inr (int (buflen (Contents s r)))"
    and "snd (Size_part000 s f) = Inr (int (buflen (Contents s r)))"
    by (simp_all add: Size_fs_def Size_part000_def IsDir_def Size_file_def)
qed

text \<open>
  The statement at the directory \<^verbatim>\<open>/a\<close> with its one child (0 in \<^verbatim>\<open>src/fs.go\<close>, 1 in
  \<^verbatim>\<open>src/unnamed/part_000\<close>) and at the entry \<^verbatim>\<open>/f\<close> holding \<^verbatim>\<open>hello\<close> (5 in both).
\<close>

theorem Size_by_revision_witness:
  "dir (File ''a'' True (Some 0) [File ''x'' False (Some 1) []]) \<and>
   get (root two_dirs_state) [0] = Some (File ''a'' True (Some 0) [File ''x'' False (Some 1) []]) \<and>
   snd (Size_fs two_dirs_state (File ''a'' True (Some 0) [File ''x'' False (Some 1) []])) = Inr 0 \<and>
   snd (Size_part000 two_dirs_state (File ''a'' True (Some 0) [File ''x'' False (Some 1) []]))
     = Inr 1 \<and>
   \<not> dir (File ''f'' False (Some 0) []) \<and>
   get (root hello_state) [0] = Some (File ''f'' False (Some 0) []) \<and>
   0 < nblobs hello_state \<and> buflen (Contents hello_state 0) = 5 \<and>
   snd (Size_fs hello_state (File ''f'' False (Some 0) [])) = Inr 5 \<and>
   snd (Size_part000 hello_state (File ''f'' False (Some 0) [])) = Inr 5"
proof -
  let ?a = "File ''a'' True (Some 0) [File ''x'' False (Some 1) []]"
  let ?f = "File ''f'' False (Some 0) []"
  have g1: "get (root two_dirs_state) [0] = Some ?a" by code_simp
  have g2: "get (root hello_state) [0] = Some ?f" by code_simp
  have n: "0 < nblobs hello_state" by code_simp
  have l: "buflen (Contents hello_state 0) = 5" by code_simp
  from Size_by_revision [of ?a two_dirs_state 0] Size_by_revision [of ?f hello_state 0]
    g1 g2 n l show ?thesis by simp
qed

text \<open>
  Claim C9 as the specification states it gives every directory the number of its
  children as its size. \<^verbatim>\<open>Size\<close> of \<^verbatim>\<open>src/fs.go\<close> returns 0 for the directory \<^verbatim>\<open>/a\<close>, which has
  one child.
\<close>

theorem Size_fs_of_directory_is_zero:
  "get (root two_dirs_state) [0] = Some (File ''a'' True (Some 0) [File ''x'' False (Some 1) []]) \<and>
   dir (File ''a'' True (Some 0) [File ''x'' False (Some 1) []]) \<and>
   length (Children (File ''a'' True (Some 0) [File ''x'' False (Some 1) []])) = 1 \<and>
   snd (Size_fs two_dirs_state (File ''a'' True (Some 0) [File ''x'' False (Some 1) []])) = Inr 0"
  by code_simp

end
